theory Spec2Isabelle
  imports Complex_Main
begin

section \<open>Data model\<close>

text \<open>
  The source keeps all parameters in a \<^verbatim>\<open>BlurState\<close> object
  (\<^verbatim>\<open>src/features/blur-generator/index.tsx\<close>, lines 24-32). The string-typed fields
  \<^verbatim>\<open>preset\<close> and \<^verbatim>\<open>easingType\<close> only ever hold the members of the constant tables
  \<^verbatim>\<open>PRESETS\<close> and \<^verbatim>\<open>EASING_TYPES\<close> (the types \<^verbatim>\<open>EasingPreset\<close> and
  \<^verbatim>\<open>EasingVariant\<close> of \<^verbatim>\<open>src/lib/blur-utils.ts\<close>), so they are datatypes here.
  The sliders deliver integers, so \<^verbatim>\<open>height\<close>, \<^verbatim>\<open>precision\<close> and \<^verbatim>\<open>blur\<close> are
  of type \<^typ>\<open>int\<close>.
\<close>

datatype EasingPreset = Linear | Sine | Quad | Cubic | Quart | Quint | Expo | Circ

datatype EasingVariant = In | Out | InOut

record BlurState =
  direction :: string
  height :: int
  precision :: int
  blur :: int
  easingType :: EasingVariant
  preset :: EasingPreset
  reverse :: bool

definition DEFAULT_STATE :: BlurState where
  "DEFAULT_STATE =
     \<lparr>direction = ''to top'', height = 50, precision = 6, blur = 15,
      easingType = In, preset = Expo, reverse = False\<rparr>"

text \<open>The four values of \<^verbatim>\<open>direction\<close> (the ids of the table \<^verbatim>\<open>DIRECTIONS\<close>).\<close>

definition DIRECTIONS :: "string list" where
  "DIRECTIONS = [''to top'', ''to bottom'', ''to right'', ''to left'']"

section \<open>Numbers\<close>

text \<open>
  A JavaScript number is an IEEE-754 double. A finite double is modelled by the real
  number it denotes, and every arithmetic operation of the source is the exact operation
  followed by \<open>fl\<close>, rounding to the nearest double with ties going to the even
  significand. \<open>ulp_exp x\<close> is the exponent of the spacing of the doubles around \<open>x\<close>
  (53 significant bits, subnormal numbers below \<open>2\<^sup>-\<^sup>1\<^sup>0\<^sup>2\<^sup>2\<close>). Overflow to
  \<^verbatim>\<open>Infinity\<close> is not modelled: no quantity of the program comes near \<open>2\<^sup>1\<^sup>0\<^sup>2\<^sup>4\<close>.
  The sign of zero is not modelled either: \<^verbatim>\<open>-0 === 0\<close> holds in the source language and
  \<^verbatim>\<open>toFixed\<close> prints both as \<^verbatim>\<open>0\<close>.
\<close>

definition round_even :: "real \<Rightarrow> int" where
  "round_even x =
     (let f = \<lfloor>x\<rfloor> in
      if x - of_int f < 1 / 2 then f
      else if 1 / 2 < x - of_int f then f + 1
      else if even f then f else f + 1)"

definition ulp_exp :: "real \<Rightarrow> int" where
  "ulp_exp x = max (\<lfloor>log 2 \<bar>x\<bar>\<rfloor> - 52) (- 1074)"

definition fl :: "real \<Rightarrow> real" where
  "fl x = (if x = 0 then 0
           else of_int (round_even (x / 2 powr of_int (ulp_exp x))) * 2 powr of_int (ulp_exp x))"

text \<open>
  \<^verbatim>\<open>Math.PI\<close> is the double nearest to \<open>\<pi>\<close>, \<^verbatim>\<open>0x400921FB54442D18\<close>. The library
  functions \<^verbatim>\<open>Math.cos\<close>, \<^verbatim>\<open>Math.sin\<close>, \<^verbatim>\<open>Math.sqrt\<close> and \<^verbatim>\<open>Math.pow\<close> are taken
  to be correctly rounded. The source calls \<^verbatim>\<open>Math.pow\<close> with the exponents 2 to 5 (on
  any base) and with base 2 (on any exponent); an integer exponent is a repeated product,
  any other exponent goes through \<open>powr\<close>, which is the power function on positive bases.
  \<^verbatim>\<open>Math.sqrt\<close> is only applied to numbers that are not negative.
\<close>

definition Math_PI :: real where
  "Math_PI = 884279719003555 / 2 ^ 48"

definition Math_cos :: "real \<Rightarrow> real" where
  "Math_cos x = fl (cos x)"

definition Math_sin :: "real \<Rightarrow> real" where
  "Math_sin x = fl (sin x)"

definition Math_sqrt :: "real \<Rightarrow> real" where
  "Math_sqrt x = fl (sqrt x)"

definition Math_pow :: "real \<Rightarrow> real \<Rightarrow> real" where
  "Math_pow b e = fl (if e = of_int \<lfloor>e\<rfloor> then b powi \<lfloor>e\<rfloor> else b powr e)"

section \<open>Easing library\<close>

text \<open>
  The table \<^verbatim>\<open>easings\<close> of \<^verbatim>\<open>src/lib/blur-utils.ts\<close>, one definition per entry, with
  the operations in the order in which the source language evaluates them
  (\<^verbatim>\<open>2 * t * t\<close> is \<^verbatim>\<open>(2 * t) * t\<close>, \<^verbatim>\<open>-2 * t + 2\<close> is \<^verbatim>\<open>((-2) * t) + 2\<close>).
  Every binary operation of the source is followed by a rounding; the unary minus is
  exact.
\<close>

definition linear :: "real \<Rightarrow> real" where
  "linear t = t"

definition sine_in :: "real \<Rightarrow> real" where
  "sine_in t = fl (1 - Math_cos (fl (fl (t * Math_PI) / 2)))"

definition sine_out :: "real \<Rightarrow> real" where
  "sine_out t = Math_sin (fl (fl (t * Math_PI) / 2))"

definition sine_in_out :: "real \<Rightarrow> real" where
  "sine_in_out t = fl (- fl (Math_cos (fl (Math_PI * t)) - 1) / 2)"

definition quad_in :: "real \<Rightarrow> real" where
  "quad_in t = fl (t * t)"

definition quad_out :: "real \<Rightarrow> real" where
  "quad_out t = fl (1 - fl (fl (1 - t) * fl (1 - t)))"

definition quad_in_out :: "real \<Rightarrow> real" where
  "quad_in_out t =
     (if t < 0.5 then fl (fl (2 * t) * t)
      else fl (1 - fl (Math_pow (fl (fl (- 2 * t) + 2)) 2 / 2)))"

definition cubic_in :: "real \<Rightarrow> real" where
  "cubic_in t = fl (fl (t * t) * t)"

definition cubic_out :: "real \<Rightarrow> real" where
  "cubic_out t = fl (1 - Math_pow (fl (1 - t)) 3)"

definition cubic_in_out :: "real \<Rightarrow> real" where
  "cubic_in_out t =
     (if t < 0.5 then fl (fl (fl (4 * t) * t) * t)
      else fl (1 - fl (Math_pow (fl (fl (- 2 * t) + 2)) 3 / 2)))"

definition quart_in :: "real \<Rightarrow> real" where
  "quart_in t = fl (fl (fl (t * t) * t) * t)"

definition quart_out :: "real \<Rightarrow> real" where
  "quart_out t = fl (1 - Math_pow (fl (1 - t)) 4)"

definition quart_in_out :: "real \<Rightarrow> real" where
  "quart_in_out t =
     (if t < 0.5 then fl (fl (fl (fl (8 * t) * t) * t) * t)
      else fl (1 - fl (Math_pow (fl (fl (- 2 * t) + 2)) 4 / 2)))"

definition quint_in :: "real \<Rightarrow> real" where
  "quint_in t = fl (fl (fl (fl (t * t) * t) * t) * t)"

definition quint_out :: "real \<Rightarrow> real" where
  "quint_out t = fl (1 - Math_pow (fl (1 - t)) 5)"

definition quint_in_out :: "real \<Rightarrow> real" where
  "quint_in_out t =
     (if t < 0.5 then fl (fl (fl (fl (fl (16 * t) * t) * t) * t) * t)
      else fl (1 - fl (Math_pow (fl (fl (- 2 * t) + 2)) 5 / 2)))"

definition expo_in :: "real \<Rightarrow> real" where
  "expo_in t = (if t = 0 then 0 else Math_pow 2 (fl (fl (10 * t) - 10)))"

definition expo_out :: "real \<Rightarrow> real" where
  "expo_out t = (if t = 1 then 1 else fl (1 - Math_pow 2 (fl (- 10 * t))))"

definition expo_in_out :: "real \<Rightarrow> real" where
  "expo_in_out t =
     (if t = 0 then 0 else if t = 1 then 1
      else if t < 0.5 then fl (Math_pow 2 (fl (fl (20 * t) - 10)) / 2)
      else fl (fl (2 - Math_pow 2 (fl (fl (- 20 * t) + 10))) / 2))"

definition circ_in :: "real \<Rightarrow> real" where
  "circ_in t = fl (1 - Math_sqrt (fl (1 - Math_pow t 2)))"

definition circ_out :: "real \<Rightarrow> real" where
  "circ_out t = Math_sqrt (fl (1 - Math_pow (fl (t - 1)) 2))"

definition circ_in_out :: "real \<Rightarrow> real" where
  "circ_in_out t =
     (if t < 0.5 then fl (fl (1 - Math_sqrt (fl (1 - Math_pow (fl (2 * t)) 2))) / 2)
      else fl (fl (Math_sqrt (fl (1 - Math_pow (fl (fl (- 2 * t) + 2)) 2)) + 1) / 2))"

text \<open>
  \<^verbatim>\<open>getEasing(preset, type, t)\<close>: \<^verbatim>\<open>linear\<close> ignores the variant, every other preset
  selects the curve of the variant.
\<close>

fun getEasing :: "EasingPreset \<Rightarrow> EasingVariant \<Rightarrow> real \<Rightarrow> real" where
  "getEasing Linear v t = linear t"
| "getEasing Sine In t = sine_in t"
| "getEasing Sine Out t = sine_out t"
| "getEasing Sine InOut t = sine_in_out t"
| "getEasing Quad In t = quad_in t"
| "getEasing Quad Out t = quad_out t"
| "getEasing Quad InOut t = quad_in_out t"
| "getEasing Cubic In t = cubic_in t"
| "getEasing Cubic Out t = cubic_out t"
| "getEasing Cubic InOut t = cubic_in_out t"
| "getEasing Quart In t = quart_in t"
| "getEasing Quart Out t = quart_out t"
| "getEasing Quart InOut t = quart_in_out t"
| "getEasing Quint In t = quint_in t"
| "getEasing Quint Out t = quint_out t"
| "getEasing Quint InOut t = quint_in_out t"
| "getEasing Expo In t = expo_in t"
| "getEasing Expo Out t = expo_out t"
| "getEasing Expo InOut t = expo_in_out t"
| "getEasing Circ In t = circ_in t"
| "getEasing Circ Out t = circ_out t"
| "getEasing Circ InOut t = circ_in_out t"

section \<open>Gradient synthesizer\<close>

text \<open>
  \<^verbatim>\<open>Number.prototype.toFixed(f)\<close> for a finite number below \<open>10\<^sup>2\<^sup>1\<close> in size: the sign,
  then the integer \<open>n\<close> for which \<open>n / 10\<^sup>f\<close> is nearest to \<open>\<bar>x\<bar>\<close> (the larger one of
  two), written in decimal, padded with zeros to \<open>f + 1\<close> digits, the point before the
  last \<open>f\<close> digits.
\<close>

definition digit_char :: "nat \<Rightarrow> char" where
  "digit_char d = ''0123456789'' ! d"

fun dec_digits :: "nat \<Rightarrow> string" where
  "dec_digits n = (if n < 10 then [digit_char n] else dec_digits (n div 10) @ [digit_char (n mod 10)])"

declare dec_digits.simps [simp del]

definition toFixed :: "nat \<Rightarrow> real \<Rightarrow> string" where
  "toFixed f x =
     (let s = (if x < 0 then ''-'' else '''');
          n = nat (round (\<bar>x\<bar> * 10 ^ f));
          m = dec_digits n
      in if f = 0 then s @ m
         else (let m' = (if length m \<le> f then replicate (f + 1 - length m) CHR ''0'' @ m else m);
                   k = length m'
               in s @ take (k - f) m' @ ''.'' @ drop (k - f) m'))"

text \<open>
  One pass of the loop body of \<^verbatim>\<open>maskImage\<close> (lines 220-224). With \<^verbatim>\<open>precision = 0\<close>
  the only pass has \<^verbatim>\<open>i = 0\<close>; \<^verbatim>\<open>0 / 0\<close> is \<^verbatim>\<open>NaN\<close>, every easing returns
  \<^verbatim>\<open>NaN\<close> on it, and \<^verbatim>\<open>toFixed\<close> prints \<^verbatim>\<open>NaN\<close>.
\<close>

definition stop :: "BlurState \<Rightarrow> int \<Rightarrow> string" where
  "stop p i =
     (if precision p = 0 then ''rgba(0, 0, 0, NaN) NaN%''
      else (let t = fl (of_int i / of_int (precision p));
                easedT = getEasing (preset p) (easingType p) t;
                opacity = (if reverse p then easedT else fl (1 - easedT));
                pos = fl (fl (of_int i / of_int (precision p)) * of_int (height p))
            in ''rgba(0, 0, 0, '' @ toFixed 3 opacity @ '') '' @ toFixed 1 pos @ ''%''))"

text \<open>The loop \<^verbatim>\<open>for (let i = 0; i <= precision; i++)\<close>, pushing onto \<^verbatim>\<open>stops\<close>.\<close>

function stops_loop :: "BlurState \<Rightarrow> int \<Rightarrow> string list \<Rightarrow> string list" where
  "stops_loop p i stops =
     (if i \<le> precision p then stops_loop p (i + 1) (stops @ [stop p i]) else stops)"
  by pat_completeness auto
termination
  by (relation "measure (\<lambda>(p, i, stops). nat (precision p + 1 - i))") auto

declare stops_loop.simps [simp del]

text \<open>The stop that line 226 pushes when \<^verbatim>\<open>height < 100\<close>.\<close>

definition terminal_stop :: "BlurState \<Rightarrow> string" where
  "terminal_stop p = ''rgba(0, 0, 0, '' @ (if reverse p then ''1'' else ''0'') @ '') 100%''"

text \<open>The array \<^verbatim>\<open>stops\<close> as it is when line 227 joins it.\<close>

definition maskStops :: "BlurState \<Rightarrow> string list" where
  "maskStops p =
     (let stops = stops_loop p 0 [] in
      if height p < 100 then stops @ [terminal_stop p] else stops)"

text \<open>\<^verbatim>\<open>stops.join(', ')\<close> and the template of line 227.\<close>

fun join :: "string \<Rightarrow> string list \<Rightarrow> string" where
  "join sep [] = []"
| "join sep [x] = x"
| "join sep (x # y # ys) = x @ sep @ join sep (y # ys)"

definition maskImage :: "BlurState \<Rightarrow> string" where
  "maskImage p = ''linear-gradient('' @ direction p @ '', '' @ join '', '' (maskStops p) @ '')''"

section \<open>History controller\<close>

text \<open>
  The component state that the history code reads and writes: the seven parameter
  cells (seen through the memoised \<^verbatim>\<open>currentState\<close>), \<^verbatim>\<open>history\<close>,
  \<^verbatim>\<open>historyIndex\<close>, the ref \<^verbatim>\<open>isUndoing\<close>, and the one timer the effect may
  have pending. A pending timer remembers how long it has been waiting and the values
  its closure captured when the effect ran: \<^verbatim>\<open>currentState\<close> and \<^verbatim>\<open>historyIndex\<close>.
\<close>

datatype Timer = Timer (waited: nat) (capturedState: BlurState) (capturedIndex: int)

record Controller =
  currentState :: BlurState
  history :: "BlurState list"
  historyIndex :: int
  isUndoing :: bool
  timer :: "Timer option"

datatype error = TypeError

definition DEBOUNCE :: nat where
  "DEBOUNCE = 300"

text \<open>The state of the first render: \<^verbatim>\<open>useState([])\<close>, \<^verbatim>\<open>useState(-1)\<close>, \<^verbatim>\<open>useRef(false)\<close>.\<close>

definition initial :: Controller where
  "initial = \<lparr>currentState = DEFAULT_STATE, history = [], historyIndex = - 1,
              isUndoing = False, timer = None\<rparr>"

text \<open>\<^verbatim>\<open>prev.slice(0, k)\<close>: a negative end counts from the end of the array.\<close>

definition js_slice0 :: "'a list \<Rightarrow> int \<Rightarrow> 'a list" where
  "js_slice0 xs k = (if k < 0 then take (nat (int (length xs) + k)) xs else take (nat k) xs)"

text \<open>\<^verbatim>\<open>xs[i]\<close>: \<^verbatim>\<open>undefined\<close> (here \<open>None\<close>) outside the array.\<close>

definition js_index :: "'a list \<Rightarrow> int \<Rightarrow> 'a option" where
  "js_index xs i = (if 0 \<le> i \<and> i < int (length xs) then Some (xs ! nat i) else None)"

text \<open>
  The body of the history effect once \<^verbatim>\<open>history.length\<close> is not 0 (lines 146-161):
  a set \<^verbatim>\<open>isUndoing\<close> flag is consumed and nothing is scheduled; otherwise a timer is
  started whose closure holds the \<^verbatim>\<open>currentState\<close> and \<^verbatim>\<open>historyIndex\<close> of this render.
\<close>

definition effect_tracking :: "Controller \<Rightarrow> Controller" where
  "effect_tracking c =
     (if isUndoing c then c\<lparr>isUndoing := False\<rparr>
      else c\<lparr>timer := Some (Timer 0 (currentState c) (historyIndex c))\<rparr>)"

text \<open>
  One run of the effect after a render in which one of its dependencies
  \<^verbatim>\<open>[currentState, history.length, historyIndex]\<close> changed. The cleanup of the
  previous run comes first (\<^verbatim>\<open>clearTimeout(timer)\<close>). With an empty history the effect
  seeds it (lines 141-145) and returns; both \<^verbatim>\<open>history.length\<close> and \<^verbatim>\<open>historyIndex\<close>
  have changed then, so the effect runs once more, on the seeded state.
\<close>

definition run_effect :: "Controller \<Rightarrow> Controller" where
  "run_effect c =
     (let c1 = c\<lparr>timer := None\<rparr> in
      if length (history c1) = 0
      then effect_tracking (c1\<lparr>history := [currentState c1], historyIndex := 0\<rparr>)
      else effect_tracking c1)"

text \<open>
  The timer callback (lines 151-159), with the values \<open>cs\<close> and \<open>hi\<close> of its closure.
  \<^verbatim>\<open>next[next.length - 1]\<close> is \<^verbatim>\<open>undefined\<close> on an empty array, and
  \<^verbatim>\<open>JSON.stringify(undefined)\<close> is not a string, so the comparison is then unequal.
  Two snapshots have the same JSON text exactly when they are equal as records.
\<close>

definition on_timeout :: "BlurState \<Rightarrow> int \<Rightarrow> Controller \<Rightarrow> Controller" where
  "on_timeout cs hi c =
     (let next = js_slice0 (history c) (hi + 1);
          lst = (if next = [] then None else Some (last next))
      in if lst \<noteq> Some cs
         then c\<lparr>history := next @ [cs], historyIndex := int (length (next @ [cs])) - 1\<rparr>
         else c\<lparr>history := next\<rparr>)"

text \<open>
  The pending timer fires: the callback runs, and if it changed \<^verbatim>\<open>history.length\<close> or
  \<^verbatim>\<open>historyIndex\<close> the effect runs again.
\<close>

definition fire :: "Controller \<Rightarrow> Controller" where
  "fire c =
     (case timer c of
        None \<Rightarrow> c
      | Some (Timer w cs hi) \<Rightarrow>
          (let c1 = on_timeout cs hi (c\<lparr>timer := None\<rparr>) in
           if length (history c1) \<noteq> length (history c) \<or> historyIndex c1 \<noteq> historyIndex c
           then run_effect c1 else c1))"

text \<open>
  A user edit (any of the seven setters, or \<^verbatim>\<open>resetBlur\<close>): setting the cells to the
  values they already hold renders nothing; otherwise \<^verbatim>\<open>currentState\<close> is a new object
  and the effect runs.
\<close>

definition setState :: "BlurState \<Rightarrow> Controller \<Rightarrow> Controller" where
  "setState x c = (if x = currentState c then c else run_effect (c\<lparr>currentState := x\<rparr>))"

text \<open>
  \<^verbatim>\<open>undo\<close> and \<^verbatim>\<open>redo\<close> (lines 174-190). \<^verbatim>\<open>applyState(history[idx])\<close> reads the fields
  of its argument, which throws a \<^verbatim>\<open>TypeError\<close> when \<^verbatim>\<open>history[idx]\<close> is
  \<^verbatim>\<open>undefined\<close>. \<^verbatim>\<open>historyIndex\<close> changes, so the effect runs after the render.
\<close>

definition undo :: "Controller \<Rightarrow> error + Controller" where
  "undo c =
     (if historyIndex c > 0 then
        (let idx = historyIndex c - 1 in
         case js_index (history c) idx of
           None \<Rightarrow> Inl TypeError
         | Some st \<Rightarrow>
             Inr (run_effect (c\<lparr>isUndoing := True, historyIndex := idx, currentState := st\<rparr>)))
      else Inr c)"

definition redo :: "Controller \<Rightarrow> error + Controller" where
  "redo c =
     (if historyIndex c < int (length (history c)) - 1 then
        (let idx = historyIndex c + 1 in
         case js_index (history c) idx of
           None \<Rightarrow> Inl TypeError
         | Some st \<Rightarrow>
             Inr (run_effect (c\<lparr>isUndoing := True, historyIndex := idx, currentState := st\<rparr>)))
      else Inr c)"

text \<open>
  Time passes for \<open>d\<close> units with no other event. A pending timer that reaches 300 units
  fires; the effect run that may follow starts a new timer, which waits in turn.
\<close>

function elapse :: "nat \<Rightarrow> Controller \<Rightarrow> Controller" where
  "elapse d c =
     (case timer c of
        None \<Rightarrow> c
      | Some (Timer w cs hi) \<Rightarrow>
          if w + d < DEBOUNCE then c\<lparr>timer := Some (Timer (w + d) cs hi)\<rparr>
          else elapse (d - (DEBOUNCE - w)) (fire c))"
  by pat_completeness auto

termination elapse
proof (relation "measures [\<lambda>(d, c). d,
          \<lambda>(d, c). case timer c of None \<Rightarrow> 0 | Some t \<Rightarrow> if DEBOUNCE \<le> waited t then 1 else 0]",
    goal_cases)
  case 1
  show ?case by simp
next
  case (2 d c t w cs hi)
  have fresh: "timer (run_effect k) = None \<or> (\<exists>cs hi. timer (run_effect k) = Some (Timer 0 cs hi))"
    for k
    by (simp add: run_effect_def effect_tracking_def Let_def)
  have fired: "timer (fire c) = None \<or> (\<exists>cs hi. timer (fire c) = Some (Timer 0 cs hi))"
    using 2 fresh
    by (auto simp add: fire_def on_timeout_def Let_def split: option.splits Timer.splits)
  show ?case
  proof (cases "w < DEBOUNCE")
    case True
    with 2 show ?thesis by auto
  next
    case False
    with 2 fired show ?thesis by (auto simp: DEBOUNCE_def)
  qed
qed

declare elapse.simps [simp del]

text \<open>
  A committed edit: the user changes the parameters to \<open>x\<close> and then leaves them alone
  for a full debounce window, so the timer of that edit fires.
\<close>

definition commit :: "BlurState \<Rightarrow> Controller \<Rightarrow> Controller" where
  "commit x c = elapse DEBOUNCE (setState x c)"

text \<open>Sequencing of operations that may throw.\<close>

definition and_then :: "error + 'a \<Rightarrow> ('a \<Rightarrow> error + 'b) \<Rightarrow> error + 'b" where
  "and_then r f = (case r of Inl e \<Rightarrow> Inl e | Inr x \<Rightarrow> f x)"

text \<open>The state once the effects of the first render have run.\<close>

definition mounted :: Controller where
  "mounted = run_effect initial"

text \<open>
  The states the component can be in: the first render, the mounted state, and every
  state that user edits, the passing of time, \<^verbatim>\<open>undo\<close> and \<^verbatim>\<open>redo\<close> lead to.
\<close>

inductive reachable :: "Controller \<Rightarrow> bool" where
  reach_initial: "reachable initial"
| reach_mount: "reachable (run_effect initial)"
| reach_setState: "reachable c \<Longrightarrow> reachable (setState x c)"
| reach_elapse: "reachable c \<Longrightarrow> reachable (elapse d c)"
| reach_undo: "reachable c \<Longrightarrow> undo c = Inr c' \<Longrightarrow> reachable c'"
| reach_redo: "reachable c \<Longrightarrow> redo c = Inr c' \<Longrightarrow> reachable c'"

text \<open>
  The invariant of the controller: the flag is down between events, no two neighbours
  of the sequence are equal, the index points into a non-empty sequence, and a pending
  timer has captured the current snapshot and index (any change of either restarts it).
\<close>

definition wf :: "Controller \<Rightarrow> bool" where
  "wf c \<longleftrightarrow>
     \<not> isUndoing c \<and> distinct_adj (history c) \<and>
     (if history c = [] then historyIndex c = - 1 \<and> timer c = None
      else 0 \<le> historyIndex c \<and> historyIndex c < int (length (history c)) \<and>
           (case timer c of
              None \<Rightarrow> True
            | Some t \<Rightarrow> capturedState t = currentState c \<and> capturedIndex t = historyIndex c))"

text \<open>Three snapshots that differ from the default one, for concrete runs.\<close>

definition snapB :: BlurState where "snapB = DEFAULT_STATE\<lparr>height := 60\<rparr>"
definition snapC :: BlurState where "snapC = DEFAULT_STATE\<lparr>height := 70\<rparr>"
definition snapD :: BlurState where "snapD = DEFAULT_STATE\<lparr>height := 80\<rparr>"

text \<open>
  Two concrete reachable states: an edit still waiting for its debounce window, and the
  state after one \<^verbatim>\<open>undo\<close>, with an entry to redo.
\<close>

definition pending_edit :: Controller where
  "pending_edit = setState snapC (commit snapB mounted)"

definition after_undo :: Controller where
  "after_undo = \<lparr>currentState = snapB, history = [DEFAULT_STATE, snapB, snapC],
      historyIndex = 1, isUndoing = False, timer = None\<rparr>"

section \<open>Properties of the rounding\<close>

lemma round_even_of_int: "round_even (of_int n) = n"
  by (simp add: round_even_def)

lemma round_even_near:
  assumes "of_int n - 1 / 2 < x" "x < of_int n + 1 / 2"
  shows "round_even x = n"
proof -
  have "\<lfloor>x\<rfloor> = n \<or> \<lfloor>x\<rfloor> = n - 1" using assms by linarith
  then show ?thesis
  proof
    assume "\<lfloor>x\<rfloor> = n"
    moreover have "x - of_int n < 1 / 2" using assms by linarith
    ultimately show ?thesis by (simp add: round_even_def)
  next
    assume f: "\<lfloor>x\<rfloor> = n - 1"
    have "1 / 2 < x - of_int (n - 1)" using assms by simp
    with f show ?thesis by (simp add: round_even_def)
  qed
qed

lemma round_even_tie_up:
  assumes "x = of_int n - 1 / 2" "even n"
  shows "round_even x = n"
proof -
  have f: "\<lfloor>x\<rfloor> = n - 1" using assms by linarith
  have "x - of_int (n - 1) = 1 / 2" using assms by simp
  with f assms(2) show ?thesis by (simp add: round_even_def)
qed

lemma round_even_tie_down:
  assumes "x = of_int n + 1 / 2" "even n"
  shows "round_even x = n"
proof -
  have f: "\<lfloor>x\<rfloor> = n" using assms by linarith
  have "x - of_int n = 1 / 2" using assms by simp
  with f assms(2) show ?thesis by (simp add: round_even_def)
qed

lemma round_even_error: "\<bar>of_int (round_even x) - x\<bar> \<le> 1 / 2"
  unfolding round_even_def Let_def by (auto split: if_splits)

lemma ulp_exp_binade:
  assumes "2 powr of_int k \<le> \<bar>x\<bar>" "\<bar>x\<bar> < 2 powr of_int (k + 1)"
  shows "ulp_exp x = max (k - 52) (- 1074)"
proof -
  have "0 < (2::real) powr of_int k" by simp
  with assms(1) have "0 < \<bar>x\<bar>" by linarith
  then have "\<lfloor>log 2 \<bar>x\<bar>\<rfloor> = k"
    using assms by (subst floor_log_eq_powr_iff) simp_all
  then show ?thesis by (simp add: ulp_exp_def)
qed

lemma fl_binade:
  assumes "2 powr of_int k \<le> \<bar>x\<bar>" "\<bar>x\<bar> < 2 powr of_int (k + 1)" "- 1022 \<le> k"
  shows "fl x = of_int (round_even (x / 2 powr of_int (k - 52))) * 2 powr of_int (k - 52)"
proof -
  have "0 < (2::real) powr of_int k" by simp
  with assms(1) have "x \<noteq> 0" by auto
  moreover have "ulp_exp x = k - 52" using ulp_exp_binade[OF assms(1,2)] assms(3) by simp
  ultimately show ?thesis by (simp add: fl_def)
qed

lemma fl_repr:
  assumes "\<bar>m\<bar> < 2 ^ 53" "- 1074 \<le> e"
  shows "fl (of_int m * 2 powr of_int e) = of_int m * 2 powr of_int e"
proof (cases "m = 0")
  case True
  then show ?thesis by (simp add: fl_def)
next
  case False
  let ?x = "of_int m * 2 powr of_int e :: real"
  have x0: "?x \<noteq> 0" using False by simp
  have ax: "\<bar>?x\<bar> = of_int \<bar>m\<bar> * 2 powr of_int e" by (simp add: abs_mult)
  have "of_int \<bar>m\<bar> < (2::real) ^ 53" using assms(1) by (metis of_int_less_numeral_power_cancel_iff)
  then have "\<bar>?x\<bar> < 2 ^ 53 * 2 powr of_int e" unfolding ax by simp
  also have "\<dots> = 2 powr (of_int (52 + e) + 1)"
    by (simp add: powr_add powr_realpow[symmetric] mult.commute)
  finally have up: "\<bar>?x\<bar> < 2 powr (of_int (52 + e) + 1)" .
  have "0 < \<bar>?x\<bar>" using x0 by simp
  have "log 2 \<bar>?x\<bar> < of_int (52 + e) + 1"
    using up \<open>0 < \<bar>?x\<bar>\<close> by (simp add: log_less_iff)
  then have "\<lfloor>log 2 \<bar>?x\<bar>\<rfloor> \<le> 52 + e" by linarith
  then have q: "ulp_exp ?x \<le> e" using assms(2) by (simp add: ulp_exp_def)
  define q where "q = ulp_exp ?x"
  have qe: "q \<le> e" using q by (simp add: q_def)
  have "?x / 2 powr of_int q = of_int m * 2 powr (of_int e - of_int q)"
    by (simp add: powr_diff)
  also have "of_int e - of_int q = (real (nat (e - q)))" using qe by simp
  also have "of_int m * 2 powr (real (nat (e - q))) = of_int (m * 2 ^ nat (e - q))"
    by (simp add: powr_realpow)
  finally have i: "?x / 2 powr of_int q = of_int (m * 2 ^ nat (e - q))" .
  have "fl ?x = of_int (round_even (?x / 2 powr of_int q)) * 2 powr of_int q"
    using x0 by (simp add: fl_def q_def)
  also have "\<dots> = (?x / 2 powr of_int q) * 2 powr of_int q"
    unfolding i round_even_of_int ..
  also have "\<dots> = ?x" by simp
  finally show ?thesis .
qed

lemma fl_of_int: "\<bar>m\<bar> < 2 ^ 53 \<Longrightarrow> fl (of_int m) = of_int m"
  using fl_repr[of m 0] by simp

lemma fl_0 [simp]: "fl 0 = 0"
  by (simp add: fl_def)

lemma fl_1 [simp]: "fl 1 = 1"
  using fl_of_int[of 1] by simp

lemma fl_numeral [simp]: "(numeral n :: int) < 2 ^ 53 \<Longrightarrow> fl (numeral n) = numeral n"
  using fl_of_int[of "numeral n"] by simp

lemma fl_neg_numeral [simp]: "(numeral n :: int) < 2 ^ 53 \<Longrightarrow> fl (- numeral n) = - numeral n"
  using fl_of_int[of "- numeral n"] by simp

lemma fl_neg_1 [simp]: "fl (- 1) = - 1"
  using fl_of_int[of "- 1"] by simp

lemma fl_error:
  assumes "2 powr of_int k \<le> \<bar>x\<bar>" "\<bar>x\<bar> < 2 powr of_int (k + 1)" "- 1022 \<le> k"
  shows "\<bar>fl x - x\<bar> \<le> 2 powr of_int (k - 52) / 2"
proof -
  let ?u = "2 powr of_int (k - 52) :: real"
  have u: "0 < ?u" by simp
  have "fl x - x = (of_int (round_even (x / ?u)) - x / ?u) * ?u"
    unfolding fl_binade[OF assms] by (simp add: algebra_simps)
  then have "\<bar>fl x - x\<bar> = \<bar>of_int (round_even (x / ?u)) - x / ?u\<bar> * ?u"
    by (simp add: abs_mult)
  also have "\<dots> \<le> 1 / 2 * ?u"
    by (intro mult_right_mono round_even_error) simp
  finally show ?thesis by simp
qed

lemma fl_below_one:
  assumes "1 / 2 ^ 54 < c" "c < 3 / 2 ^ 54"
  shows "fl (1 - c) = 1 - 1 / 2 ^ 53"
proof -
  have p: "(2::real) powr of_int (- 1) = 1 / 2" "(2::real) powr of_int (- 1 + 1) = 1"
    "(2::real) powr of_int (- 1 - 52) = 1 / 2 ^ 53"
    by (simp_all add: powr_minus_divide powr_minus)
  have p': "(2::real) powr - 53 = 1 / 2 ^ 53" by (simp add: powr_minus_divide)
  have c: "0 < c" "c < 1 / 2" using assms by (simp_all add: less_trans[OF _ assms(1)] less_trans[OF assms(2)])
  have a: "2 powr of_int (- 1) \<le> \<bar>1 - c\<bar>" "\<bar>1 - c\<bar> < 2 powr of_int (- 1 + 1)"
    unfolding p using c by simp_all
  have r: "round_even ((1 - c) / (1 / 2 ^ 53)) = 2 ^ 53 - 1"
  proof (rule round_even_near)
    have "(1 - c) / (1 / 2 ^ 53) = 2 ^ 53 - c * 2 ^ 53" by (simp add: algebra_simps)
    moreover have "1 / 2 < c * 2 ^ 53" "c * 2 ^ 53 < 3 / 2" using assms by simp_all
    ultimately show "of_int (2 ^ 53 - 1) - 1 / 2 < (1 - c) / (1 / 2 ^ 53)"
      and "(1 - c) / (1 / 2 ^ 53) < of_int (2 ^ 53 - 1) + 1 / 2"
      by simp_all
  qed
  have e: "fl (1 - c) = of_int (round_even ((1 - c) / (1 / 2 ^ 53))) * (1 / 2 ^ 53)"
    using fl_binade[OF a] by (simp add: p')
  show ?thesis unfolding e r by simp
qed

lemma fl_up_to_one:
  assumes "1 - 1 / 2 ^ 54 \<le> y" "y \<le> 1"
  shows "fl y = 1"
proof (cases "y = 1")
  case True
  then show ?thesis by simp
next
  case False
  have p: "(2::real) powr of_int (- 1) = 1 / 2" "(2::real) powr of_int (- 1 + 1) = 1"
    "(2::real) powr of_int (- 1 - 52) = 1 / 2 ^ 53"
    by (simp_all add: powr_minus_divide powr_minus)
  have p': "(2::real) powr - 53 = 1 / 2 ^ 53" by (simp add: powr_minus_divide)
  have y: "1 / 2 \<le> y" "y < 1" using assms False by simp_all
  have a: "2 powr of_int (- 1) \<le> \<bar>y\<bar>" "\<bar>y\<bar> < 2 powr of_int (- 1 + 1)"
    unfolding p using y by simp_all
  have s: "y / (1 / 2 ^ 53) = y * 2 ^ 53" by simp
  have lo: "2 ^ 53 - 1 / 2 \<le> y * 2 ^ 53" using assms(1) by simp
  have hi: "y * 2 ^ 53 < 2 ^ 53" using y by simp
  have r: "round_even (y * 2 ^ 53) = 2 ^ 53"
  proof (cases "y * 2 ^ 53 = 2 ^ 53 - 1 / 2")
    case True
    then have "y * 2 ^ 53 = of_int (2 ^ 53) - 1 / 2" by (simp only: of_int_power of_int_numeral)
    then show ?thesis by (rule round_even_tie_up) simp
  next
    case False
    show ?thesis by (rule round_even_near) (use lo hi False in simp_all)
  qed
  have e: "fl y = of_int (round_even (y / (1 / 2 ^ 53))) * (1 / 2 ^ 53)"
    using fl_binade[OF a] by (simp add: p')
  show ?thesis unfolding e s r by simp
qed

lemma fl_down_to_minus_one:
  assumes "- 1 \<le> y" "y \<le> - 1 + 1 / 2 ^ 54"
  shows "fl y = - 1"
proof (cases "y = - 1")
  case True
  then show ?thesis by simp
next
  case False
  have p: "(2::real) powr of_int (- 1) = 1 / 2" "(2::real) powr of_int (- 1 + 1) = 1"
    "(2::real) powr of_int (- 1 - 52) = 1 / 2 ^ 53"
    by (simp_all add: powr_minus_divide powr_minus)
  have p': "(2::real) powr - 53 = 1 / 2 ^ 53" by (simp add: powr_minus_divide)
  have y: "y \<le> - (1 / 2)" "- 1 < y" using assms False by simp_all
  have a: "2 powr of_int (- 1) \<le> \<bar>y\<bar>" "\<bar>y\<bar> < 2 powr of_int (- 1 + 1)"
    unfolding p using y by simp_all
  have s: "y / (1 / 2 ^ 53) = y * 2 ^ 53" by simp
  have hi: "y * 2 ^ 53 \<le> - (2 ^ 53) + 1 / 2" using assms(2) by simp
  have lo: "- (2 ^ 53) < y * 2 ^ 53" using y by simp
  have r: "round_even (y * 2 ^ 53) = - (2 ^ 53)"
  proof (cases "y * 2 ^ 53 = - (2 ^ 53) + 1 / 2")
    case True
    then have "y * 2 ^ 53 = of_int (- (2 ^ 53)) + 1 / 2"
      by (simp only: of_int_power of_int_numeral of_int_minus)
    then show ?thesis by (rule round_even_tie_down) simp
  next
    case False
    show ?thesis by (rule round_even_near) (use lo hi False in simp_all)
  qed
  have e: "fl y = of_int (round_even (y / (1 / 2 ^ 53))) * (1 / 2 ^ 53)"
    using fl_binade[OF a] by (simp add: p')
  show ?thesis unfolding e s r by simp
qed

section \<open>The cosine at the double nearest to a quarter turn\<close>

lemma cos_taylor_bound:
  fixes x :: real
  assumes "0 < x" "0 < n"
  shows "\<bar>cos x - (\<Sum>m<n. cos_coeff m * x ^ m)\<bar> \<le> x ^ n / fact n"
proof -
  from Maclaurin_cos_expansion2[OF assms] obtain t where
    t: "cos x = (\<Sum>m<n. cos_coeff m * x ^ m) + (cos (t + 1/2 * real n * pi) / fact n) * x ^ n"
    by blast
  have "\<bar>cos x - (\<Sum>m<n. cos_coeff m * x ^ m)\<bar> = \<bar>cos (t + 1/2 * real n * pi)\<bar> * (x ^ n / fact n)"
    using assms(1) by (simp add: t abs_mult)
  also have "\<dots> \<le> 1 * (x ^ n / fact n)"
    using assms(1) by (intro mult_right_mono) (simp_all add: abs_cos_le_one)
  finally show ?thesis by simp
qed

lemma cos_poly_24:
  "(\<Sum>m<24. cos_coeff m * x ^ m) =
     1 - x^2 / fact 2 + x^4 / fact 4 - x^6 / fact 6 + x^8 / fact 8 - x^10 / fact 10 + x^12 / fact 12
       - x^14 / fact 14 + x^16 / fact 16 - x^18 / fact 18 + x^20 / fact 20 - x^22 / fact 22"
  by (simp add: lessThan_nat_numeral cos_coeff_def del: fact_numeral)

lemma cos_half_pi_bounds:
  fixes X :: real
  assumes X: "X = 884279719003555 / 2 ^ 49"
  shows "61 / 10 ^ 18 \<le> cos X" "cos X \<le> 62 / 10 ^ 18"
proof -
  have pos: "0 < X" by (simp add: X)
  have b: "\<bar>cos X - (\<Sum>m<24. cos_coeff m * X ^ m)\<bar> \<le> X ^ 24 / fact 24"
    by (rule cos_taylor_bound[OF pos]) simp
  have lo: "61 / 10 ^ 18 \<le> (\<Sum>m<24. cos_coeff m * X ^ m) - X ^ 24 / fact 24"
    unfolding cos_poly_24 X by (simp add: fact_numeral power_divide)
  have hi: "(\<Sum>m<24. cos_coeff m * X ^ m) + X ^ 24 / fact 24 \<le> 62 / 10 ^ 18"
    unfolding cos_poly_24 X by (simp add: fact_numeral power_divide)
  from b lo show "61 / 10 ^ 18 \<le> cos X" by linarith
  from b hi show "cos X \<le> 62 / 10 ^ 18" by linarith
qed

lemma fl_Math_PI: "fl Math_PI = Math_PI"
  using fl_repr[of 884279719003555 "- 48"] by (simp add: Math_PI_def powr_minus_divide)

lemma fl_half_Math_PI: "fl (Math_PI / 2) = Math_PI / 2"
  using fl_repr[of 884279719003555 "- 49"] by (simp add: Math_PI_def powr_minus_divide)

lemma half_Math_PI: "Math_PI / 2 = 884279719003555 / 2 ^ 49"
  by (simp add: Math_PI_def)

lemma cos_half_Math_PI: "61 / 10 ^ 18 \<le> cos (Math_PI / 2)" "cos (Math_PI / 2) \<le> 62 / 10 ^ 18"
  using cos_half_pi_bounds[OF half_Math_PI] by simp_all

lemma Math_cos_half_Math_PI:
  "1 / 2 ^ 54 < Math_cos (Math_PI / 2)" "Math_cos (Math_PI / 2) < 3 / 2 ^ 54"
proof -
  let ?v = "cos (Math_PI / 2)"
  have p: "(2::real) powr of_int (- 54) = 1 / 2 ^ 54" "(2::real) powr of_int (- 54 + 1) = 1 / 2 ^ 53"
    "(2::real) powr of_int (- 54 - 52) = 1 / 2 ^ 106"
    by (simp_all add: powr_minus_divide)
  have v: "0 < ?v" using cos_half_Math_PI(1) by simp
  have a: "2 powr of_int (- 54) \<le> \<bar>?v\<bar>" "\<bar>?v\<bar> < 2 powr of_int (- 54 + 1)"
    unfolding p using cos_half_Math_PI by simp_all
  have "\<bar>fl ?v - ?v\<bar> \<le> 2 powr of_int (- 54 - 52) / 2"
    by (rule fl_error[OF a]) simp
  then have e: "\<bar>fl ?v - ?v\<bar> \<le> 1 / 2 ^ 107" unfolding p by simp
  have "(1::real) / 2 ^ 54 + 1 / 2 ^ 107 < 61 / 10 ^ 18" by simp
  with e cos_half_Math_PI(1) show "1 / 2 ^ 54 < Math_cos (Math_PI / 2)"
    unfolding Math_cos_def by linarith
  have "(62::real) / 10 ^ 18 + 1 / 2 ^ 107 < 3 / 2 ^ 54" by simp
  with e cos_half_Math_PI(2) show "Math_cos (Math_PI / 2) < 3 / 2 ^ 54"
    unfolding Math_cos_def by linarith
qed

section \<open>Properties of the easing library\<close>

lemma Math_pow_nat: "Math_pow b (numeral n) = fl (b ^ numeral n)"
  by (simp add: Math_pow_def)

lemma Math_pow_zero: "Math_pow b 0 = 1"
  by (simp add: Math_pow_def)

lemma Math_sqrt_0: "Math_sqrt 0 = 0" and Math_sqrt_1: "Math_sqrt 1 = 1"
  by (simp_all add: Math_sqrt_def)

lemma at_zero:
  "sine_in 0 = 0" "sine_out 0 = 0" "sine_in_out 0 = 0"
  "quad_in 0 = 0" "quad_out 0 = 0" "quad_in_out 0 = 0"
  "cubic_in 0 = 0" "cubic_out 0 = 0" "cubic_in_out 0 = 0"
  "quart_in 0 = 0" "quart_out 0 = 0" "quart_in_out 0 = 0"
  "quint_in 0 = 0" "quint_out 0 = 0" "quint_in_out 0 = 0"
  "expo_in 0 = 0" "expo_out 0 = 0" "expo_in_out 0 = 0"
  "circ_in 0 = 0" "circ_out 0 = 0" "circ_in_out 0 = 0"
  by (simp_all add: sine_in_def sine_out_def sine_in_out_def quad_in_def quad_out_def quad_in_out_def
      cubic_in_def cubic_out_def cubic_in_out_def quart_in_def quart_out_def quart_in_out_def
      quint_in_def quint_out_def quint_in_out_def expo_in_def expo_out_def expo_in_out_def
      circ_in_def circ_out_def circ_in_out_def Math_cos_def Math_sin_def Math_pow_nat Math_pow_zero
      Math_sqrt_0 Math_sqrt_1)

lemma at_one:
  "quad_in 1 = 1" "quad_out 1 = 1" "quad_in_out 1 = 1"
  "cubic_in 1 = 1" "cubic_out 1 = 1" "cubic_in_out 1 = 1"
  "quart_in 1 = 1" "quart_out 1 = 1" "quart_in_out 1 = 1"
  "quint_in 1 = 1" "quint_out 1 = 1" "quint_in_out 1 = 1"
  "expo_in 1 = 1" "expo_out 1 = 1" "expo_in_out 1 = 1"
  "circ_in 1 = 1" "circ_out 1 = 1" "circ_in_out 1 = 1"
  by (simp_all add: quad_in_def quad_out_def quad_in_out_def
      cubic_in_def cubic_out_def cubic_in_out_def quart_in_def quart_out_def quart_in_out_def
      quint_in_def quint_out_def quint_in_out_def expo_in_def expo_out_def expo_in_out_def
      circ_in_def circ_out_def circ_in_out_def Math_pow_nat Math_pow_zero
      Math_sqrt_0 Math_sqrt_1)

lemma sine_in_1: "sine_in 1 = 1 - 1 / 2 ^ 53"
  unfolding sine_in_def
  by (simp add: fl_Math_PI fl_half_Math_PI fl_below_one[OF Math_cos_half_Math_PI])

lemma cos_sq_small: "(cos (Math_PI / 2))\<^sup>2 \<le> 1 / 2 ^ 55"
proof -
  have "(cos (Math_PI / 2))\<^sup>2 \<le> (62 / 10 ^ 18)\<^sup>2"
    using cos_half_Math_PI by (intro power_mono) simp_all
  also have "\<dots> \<le> 1 / 2 ^ 55" by (simp add: power_divide)
  finally show ?thesis .
qed

lemma sine_out_1: "sine_out 1 = 1"
proof -
  let ?x = "Math_PI / 2"
  have "0 < ?x" "?x < 2" by (simp_all add: Math_PI_def)
  then have s0: "0 < sin ?x" by (rule sin_gt_zero_02)
  have "sin ?x * sin ?x \<le> sin ?x * 1" using s0 by (intro mult_left_mono) simp_all
  then have "(sin ?x)\<^sup>2 \<le> sin ?x" by (simp add: power2_eq_square)
  moreover have "(sin ?x)\<^sup>2 = 1 - (cos ?x)\<^sup>2" by (simp add: sin_squared_eq)
  ultimately have "1 - 1 / 2 ^ 54 \<le> sin ?x" using cos_sq_small by simp
  then have "fl (sin ?x) = 1" by (rule fl_up_to_one) simp
  then show ?thesis
    unfolding sine_out_def Math_sin_def by (simp add: fl_Math_PI fl_half_Math_PI)
qed

lemma sine_in_out_1: "sine_in_out 1 = 1"
proof -
  let ?x = "Math_PI / 2"
  have "cos Math_PI = cos (2 * ?x)" by simp
  also have "\<dots> = 2 * (cos ?x)\<^sup>2 - 1" by (rule cos_double_cos)
  finally have c: "cos Math_PI = 2 * (cos ?x)\<^sup>2 - 1" .
  have "fl (cos Math_PI) = - 1"
    by (rule fl_down_to_minus_one) (use cos_sq_small in \<open>simp_all add: c\<close>)
  then show ?thesis
    unfolding sine_in_out_def Math_cos_def by (simp add: fl_Math_PI)
qed

section \<open>Properties of the gradient synthesizer\<close>

lemma stops_loop_eq: "stops_loop p i stops = stops @ map (stop p) [i..precision p]"
proof (induction p i stops rule: stops_loop.induct)
  case (1 p i stops)
  show ?case
  proof (cases "i \<le> precision p")
    case True
    then have "[i..precision p] = i # [i + 1..precision p]" by (simp add: upto_rec1)
    with True 1 show ?thesis by (subst stops_loop.simps) simp
  next
    case False
    then show ?thesis by (subst stops_loop.simps) simp
  qed
qed

lemma replicate_num: "replicate (numeral k) x = x # replicate (pred_numeral k) x"
  by (simp add: numeral_eq_Suc)

lemma toFixed_3_1: "toFixed 3 1 = ''1.000''"
  by (simp add: toFixed_def dec_digits.simps digit_char_def Let_def replicate_num)

lemma toFixed_3_0: "toFixed 3 0 = ''0.000''"
  by (simp add: toFixed_def dec_digits.simps digit_char_def Let_def replicate_num)

lemma toFixed_1_0: "toFixed (Suc 0) 0 = ''0.0''"
  by (simp add: toFixed_def dec_digits.simps digit_char_def Let_def replicate_num)

lemma toFixed_1_50: "toFixed (Suc 0) 50 = ''50.0''"
  by (simp add: toFixed_def dec_digits.simps digit_char_def Let_def replicate_num)

lemma Math_pow_2_0: "Math_pow 2 0 = 1"
  by (simp add: Math_pow_def)

lemma boundary_first:
  assumes "preset p = Expo" "easingType p = In" "\<not> reverse p" "precision p = 6" "height p = 50"
  shows "stop p 0 = ''rgba(0, 0, 0, 1.000) 0.0%''"
  using assms by (simp add: stop_def expo_in_def Let_def toFixed_3_1 toFixed_1_0)

lemma boundary_last:
  assumes "preset p = Expo" "easingType p = In" "\<not> reverse p" "precision p = 6" "height p = 50"
  shows "stop p 6 = ''rgba(0, 0, 0, 0.000) 50.0%''"
  using assms by (simp add: stop_def expo_in_def Let_def toFixed_3_0 toFixed_1_50 Math_pow_2_0)

lemma digit_char_digit: "d < 10 \<Longrightarrow> digit_char d \<in> set ''0123456789''"
  unfolding digit_char_def by (rule nth_mem) simp

lemma dec_digits_chars: "set (dec_digits n) \<subseteq> set ''0123456789''"
proof (induction n rule: dec_digits.induct)
  case (1 n)
  define D where "D = set ''0123456789''"
  show ?case
  proof (cases "n < 10")
    case True
    have e: "dec_digits n = [digit_char n]" using True by (subst dec_digits.simps) simp
    have "digit_char n \<in> D" unfolding D_def using True by (rule digit_char_digit)
    then show ?thesis unfolding e D_def[symmetric] by simp
  next
    case False
    have e: "dec_digits n = dec_digits (n div 10) @ [digit_char (n mod 10)]"
      using False by (subst dec_digits.simps) simp
    have a: "digit_char (n mod 10) \<in> D" unfolding D_def by (rule digit_char_digit) simp
    have b: "set (dec_digits (n div 10)) \<subseteq> D" unfolding D_def using False by (rule 1)
    show ?thesis unfolding e D_def[symmetric] using a b by simp
  qed
qed

lemma toFixed_chars: "set (toFixed f x) \<subseteq> set ''-.0123456789''"
proof -
  define E where "E = set ''-.0123456789''"
  have sub: "set ''0123456789'' \<subseteq> E" "CHR ''0'' \<in> E" "CHR ''.'' \<in> E" "CHR ''-'' \<in> E"
    by (simp_all add: E_def)
  define n where "n = nat (round (\<bar>x\<bar> * 10 ^ f))"
  define m where "m = dec_digits n"
  define m' where "m' = (if length m \<le> f then replicate (f + 1 - length m) CHR ''0'' @ m else m)"
  define s where "s = (if x < 0 then ''-'' else '''')"
  have m: "set m \<subseteq> E" unfolding m_def using dec_digits_chars[of n] sub(1) by (rule subset_trans)
  have "set (replicate (f + 1 - length m) CHR ''0'') \<subseteq> E" using sub(2) by auto
  with m sub(2) have m': "set m' \<subseteq> E" by (simp add: m'_def)
  have s: "set s \<subseteq> E" using sub(4) by (cases "x < 0") (simp_all add: s_def)
  have t: "set (take k m') \<subseteq> E" "set (drop k m') \<subseteq> E" for k
    using m' set_take_subset[of k m'] set_drop_subset[of k m'] by blast+
  have "toFixed f x = (if f = 0 then s @ m
      else s @ take (length m' - f) m' @ ''.'' @ drop (length m' - f) m')"
    by (simp add: toFixed_def Let_def s_def m_def n_def m'_def)
  then have "set (toFixed f x) \<subseteq> E" using s m t sub(3) by simp
  then show ?thesis by (simp only: E_def)
qed

lemma toFixed_no_percent: "count_list (toFixed f x) CHR ''%'' = 0"
  using toFixed_chars[of f x] by (auto simp: count_list_0_iff)

lemma stop_one_percent: "count_list (stop p i) CHR ''%'' = 1"
  by (simp add: stop_def Let_def toFixed_no_percent)

lemma terminal_stop_one_percent: "count_list (terminal_stop p) CHR ''%'' = 1"
  by (simp add: terminal_stop_def)

lemma count_join:
  "(\<forall>x \<in> set xs. count_list x c = 1) \<Longrightarrow> count_list sep c = 0 \<Longrightarrow>
   count_list (join sep xs) c = length xs"
  by (induction sep xs rule: join.induct) simp_all

lemma maskStops_one_percent: "\<forall>s \<in> set (maskStops p). count_list s CHR ''%'' = 1"
  by (auto simp: maskStops_def Let_def stops_loop_eq stop_one_percent terminal_stop_one_percent)

lemma maskImage_percent_count:
  assumes "direction p \<in> set DIRECTIONS"
  shows "count_list (maskImage p) CHR ''%'' = length (maskStops p)"
proof -
  have "count_list (direction p) CHR ''%'' = 0"
    using assms by (auto simp: DIRECTIONS_def)
  moreover have "count_list (join '', '' (maskStops p)) CHR ''%'' = length (maskStops p)"
    by (rule count_join[OF maskStops_one_percent]) simp
  ultimately show ?thesis by (simp add: maskImage_def)
qed

text \<open>
  The value of \<^verbatim>\<open>sine.in(1)\<close> does not hinge on \<^verbatim>\<open>Math.cos\<close> being correctly rounded:
  any result within one unit in the last place of the cosine (\<open>2\<^sup>-\<^sup>1\<^sup>0\<^sup>6\<close> here) gives
  the same double below 1. In the gradient the difference is not visible, since
  \<^verbatim>\<open>toFixed(3)\<close> prints the opacity as \<^verbatim>\<open>1.000\<close> (reversed) or \<^verbatim>\<open>0.000\<close>.
\<close>

lemma sine_in_1_any_cos:
  assumes "\<bar>c - cos (Math_PI / 2)\<bar> \<le> 1 / 2 ^ 106"
  shows "fl (1 - c) = 1 - 1 / 2 ^ 53"
proof (rule fl_below_one)
  have "(1::real) / 2 ^ 54 + 1 / 2 ^ 106 < 61 / 10 ^ 18" by simp
  with assms cos_half_Math_PI(1) show "1 / 2 ^ 54 < c" by linarith
  have "(62::real) / 10 ^ 18 + 1 / 2 ^ 106 < 3 / 2 ^ 54" by simp
  with assms cos_half_Math_PI(2) show "c < 3 / 2 ^ 54" by linarith
qed

lemma sine_in_end_prints:
  "toFixed 3 (1 - 1 / 2 ^ 53) = ''1.000''" "toFixed 3 (fl (1 - (1 - 1 / 2 ^ 53))) = ''0.000''"
proof -
  have r1: "round (\<bar>1 - 1 / 2 ^ 53 :: real\<bar> * 10 ^ 3) = 1000"
    by (rule round_unique) simp_all
  show "toFixed 3 (1 - 1 / 2 ^ 53) = ''1.000''"
    unfolding toFixed_def Let_def r1
    by (simp add: dec_digits.simps digit_char_def)
  have v: "fl (1 - (1 - 1 / 2 ^ 53)) = 1 / 2 ^ 53"
    using fl_repr[of 1 "- 53"] by (simp add: powr_minus_divide)
  have r2: "round (\<bar>1 / 2 ^ 53 :: real\<bar> * 10 ^ 3) = 0"
    by (rule round_unique) simp_all
  show "toFixed 3 (fl (1 - (1 - 1 / 2 ^ 53))) = ''0.000''"
    unfolding v toFixed_def Let_def r2
    by (simp add: dec_digits.simps digit_char_def replicate_num)
qed

subsection \<open>Claims about the gradient\<close>

text \<open>
  Claim C1. For every parameter set with \<open>2 \<le> precision \<le> 20\<close> and one of the four
  directions, the array of stops that \<^verbatim>\<open>maskImage\<close> joins into the gradient string has
  exactly \<open>precision + 1\<close> entries when \<open>height = 100\<close> and exactly \<open>precision + 2\<close>
  entries when \<open>height < 100\<close>. Each stop ends in the only percent sign it has, so the
  stops of the string can be counted in the string itself: it has as many percent signs
  as the array has entries.
\<close>

theorem stop_count:
  assumes "2 \<le> precision p" "precision p \<le> 20" "direction p \<in> set DIRECTIONS"
  shows "count_list (maskImage p) CHR ''%'' = length (maskStops p) \<and>
         (height p = 100 \<longrightarrow> int (length (maskStops p)) = precision p + 1) \<and>
         (height p < 100 \<longrightarrow> int (length (maskStops p)) = precision p + 2)"
  using assms maskImage_percent_count[of p]
  by (simp add: maskStops_def stops_loop_eq Let_def)

theorem stop_count_witness:
  "2 \<le> precision DEFAULT_STATE \<and> precision DEFAULT_STATE \<le> 20 \<and>
   direction DEFAULT_STATE \<in> set DIRECTIONS \<and>
   height DEFAULT_STATE < 100 \<and> length (maskStops DEFAULT_STATE) = 8 \<and>
   count_list (maskImage DEFAULT_STATE) CHR ''%'' = 8 \<and>
   height (DEFAULT_STATE\<lparr>height := 100\<rparr>) = 100 \<and>
   length (maskStops (DEFAULT_STATE\<lparr>height := 100\<rparr>)) = 7 \<and>
   count_list (maskImage (DEFAULT_STATE\<lparr>height := 100\<rparr>)) CHR ''%'' = 7"
  using stop_count[of DEFAULT_STATE] stop_count[of "DEFAULT_STATE\<lparr>height := 100\<rparr>"]
  by (simp add: DEFAULT_STATE_def DIRECTIONS_def)

text \<open>
  Claim C2. For every parameter set in the domain of the sliders, the loop computes
  \<open>precision + 1\<close> stops; if \<open>height < 100\<close> exactly one more stop follows them, at
  \<^verbatim>\<open>100%\<close>, with alpha \<^verbatim>\<open>1\<close> when \<^verbatim>\<open>reverse\<close> is set and \<^verbatim>\<open>0\<close> otherwise; if
  \<open>height = 100\<close> nothing follows the computed stops.
\<close>

theorem terminal_stop_appended:
  assumes "2 \<le> precision p" "precision p \<le> 20"
  shows "int (length (stops_loop p 0 [])) = precision p + 1 \<and>
         (height p < 100 \<longrightarrow>
            maskStops p = stops_loop p 0 [] @
              [if reverse p then ''rgba(0, 0, 0, 1) 100%'' else ''rgba(0, 0, 0, 0) 100%'']) \<and>
         (height p = 100 \<longrightarrow> maskStops p = stops_loop p 0 [])"
  using assms by (simp add: maskStops_def stops_loop_eq Let_def terminal_stop_def)

theorem terminal_stop_appended_witness:
  "2 \<le> precision DEFAULT_STATE \<and> precision DEFAULT_STATE \<le> 20 \<and>
   height DEFAULT_STATE < 100 \<and> \<not> reverse DEFAULT_STATE \<and>
   length (stops_loop DEFAULT_STATE 0 []) = 7 \<and>
   maskStops DEFAULT_STATE = stops_loop DEFAULT_STATE 0 [] @ [''rgba(0, 0, 0, 0) 100%''] \<and>
   maskStops (DEFAULT_STATE\<lparr>reverse := True\<rparr>) =
     stops_loop (DEFAULT_STATE\<lparr>reverse := True\<rparr>) 0 [] @ [''rgba(0, 0, 0, 1) 100%''] \<and>
   maskStops (DEFAULT_STATE\<lparr>height := 100\<rparr>) = stops_loop (DEFAULT_STATE\<lparr>height := 100\<rparr>) 0 []"
  using terminal_stop_appended[of DEFAULT_STATE]
    terminal_stop_appended[of "DEFAULT_STATE\<lparr>reverse := True\<rparr>"]
    terminal_stop_appended[of "DEFAULT_STATE\<lparr>height := 100\<rparr>"]
  by (simp add: DEFAULT_STATE_def)

lemma boundary_stops:
  assumes "preset p = Expo" "easingType p = In" "\<not> reverse p" "precision p = 6" "height p = 50"
  shows "maskStops p = [''rgba(0, 0, 0, 1.000) 0.0%'', stop p 1, stop p 2, stop p 3, stop p 4,
           stop p 5, ''rgba(0, 0, 0, 0.000) 50.0%'', ''rgba(0, 0, 0, 0) 100%'']"
proof -
  have u: "[0..6] = [0, 1, 2, 3, 4, 5, 6::int]" by (simp add: upto_rec1)
  have m: "maskStops p = [stop p 0, stop p 1, stop p 2, stop p 3, stop p 4, stop p 5, stop p 6,
      ''rgba(0, 0, 0, 0) 100%'']"
    using assms by (simp add: maskStops_def stops_loop_eq Let_def terminal_stop_def u)
  show ?thesis
    unfolding m boundary_first[OF assms] boundary_last[OF assms] ..
qed

text \<open>
  Claim C3, as the code has it. For direction \<^verbatim>\<open>to top\<close>, height 50, precision 6,
  \<^verbatim>\<open>expo\<close>/\<^verbatim>\<open>in\<close> and no reversal (and any blur radius) there are eight stops; the
  first is \<^verbatim>\<open>rgba(0, 0, 0, 1.000) 0.0%\<close>, the last computed one (\<open>i = 6\<close>) is
  \<^verbatim>\<open>rgba(0, 0, 0, 0.000) 50.0%\<close> and the terminal one is \<^verbatim>\<open>rgba(0, 0, 0, 0) 100%\<close>:
  the template of the source puts a blank after each comma inside \<^verbatim>\<open>rgba(...)\<close>.
\<close>

theorem boundary_scenario:
  "length (maskStops \<lparr>direction = ''to top'', height = 50, precision = 6, blur = b,
                easingType = In, preset = Expo, reverse = False\<rparr>) = 8 \<and>
   maskStops \<lparr>direction = ''to top'', height = 50, precision = 6, blur = b,
                easingType = In, preset = Expo, reverse = False\<rparr> ! 0
     = ''rgba(0, 0, 0, 1.000) 0.0%'' \<and>
   maskStops \<lparr>direction = ''to top'', height = 50, precision = 6, blur = b,
                easingType = In, preset = Expo, reverse = False\<rparr> ! 6
     = ''rgba(0, 0, 0, 0.000) 50.0%'' \<and>
   maskStops \<lparr>direction = ''to top'', height = 50, precision = 6, blur = b,
                easingType = In, preset = Expo, reverse = False\<rparr> ! 7
     = ''rgba(0, 0, 0, 0) 100%''"
  by (subst boundary_stops, simp_all)+

text \<open>
  Claim C3 as stated names the three stops without blanks after the commas; the stops of
  the output differ from those strings.
\<close>

theorem boundary_scenario_unspaced:
  "maskStops DEFAULT_STATE ! 0 \<noteq> ''rgba(0,0,0,1.000) 0.0%'' \<and>
   maskStops DEFAULT_STATE ! 6 \<noteq> ''rgba(0,0,0,0.000) 50.0%'' \<and>
   maskStops DEFAULT_STATE ! 7 \<noteq> ''rgba(0,0,0,0) 100%''"
  by (subst boundary_stops, simp_all add: DEFAULT_STATE_def)+

subsection \<open>Claims about the easing library\<close>

text \<open>
  Claim C4, as the code has it. For every preset other than \<^verbatim>\<open>linear\<close> and every variant
  the easing returns exactly 0 at \<open>t = 0\<close>, and exactly 1 at \<open>t = 1\<close> with one exception:
  \<^verbatim>\<open>sine\<close>/\<^verbatim>\<open>in\<close> returns \<open>1 - 2\<^sup>-\<^sup>5\<^sup>3\<close> (printed \<^verbatim>\<open>0.9999999999999999\<close>), because
  \<^verbatim>\<open>Math.cos(Math.PI / 2)\<close> is about \<open>6.1 \<times> 10\<^sup>-\<^sup>1\<^sup>7\<close> and not 0.
\<close>

theorem easing_boundaries:
  assumes "p \<noteq> Linear"
  shows "getEasing p v 0 = 0 \<and>
         getEasing p v 1 = (if p = Sine \<and> v = In then 1 - 1 / 2 ^ 53 else 1)"
  using assms by (cases p; cases v) (simp_all add: at_zero at_one sine_in_1 sine_out_1 sine_in_out_1)

theorem easing_boundaries_witness:
  "Sine \<noteq> Linear \<and> getEasing Sine In 0 = 0 \<and> getEasing Sine In 1 = 1 - 1 / 2 ^ 53 \<and>
   Circ \<noteq> Linear \<and> getEasing Circ InOut 0 = 0 \<and> getEasing Circ InOut 1 = 1"
  using easing_boundaries[of Sine In] easing_boundaries[of Circ InOut] by simp

text \<open>Claim C4 as stated fails for \<^verbatim>\<open>sine\<close>/\<^verbatim>\<open>in\<close> at \<open>t = 1\<close>.\<close>

theorem sine_in_misses_one: "getEasing Sine In 1 \<noteq> 1"
  by (simp add: sine_in_1)

section \<open>Properties of the history controller\<close>

subsection \<open>The invariant\<close>

lemma wf_initial: "wf initial"
  by (simp add: wf_def initial_def)

lemma distinct_adj_take: "distinct_adj xs \<Longrightarrow> distinct_adj (take n xs)"
  by (metis append_take_drop_id distinct_adj_appendD1)

lemma wf_run_effect:
  assumes "distinct_adj (history c)"
    and "history c \<noteq> [] \<Longrightarrow> 0 \<le> historyIndex c \<and> historyIndex c < int (length (history c))"
  shows "wf (run_effect c)"
  using assms by (auto simp: wf_def run_effect_def effect_tracking_def Let_def)

lemma wf_facts:
  assumes "wf c"
  shows "distinct_adj (history c)" and "\<not> isUndoing c"
    and "history c \<noteq> [] \<Longrightarrow> 0 \<le> historyIndex c \<and> historyIndex c < int (length (history c))"
  using assms by (auto simp: wf_def split: if_splits)

lemma wf_setState: "wf c \<Longrightarrow> wf (setState x c)"
proof -
  assume w: "wf c"
  have "wf (run_effect (c\<lparr>currentState := x\<rparr>))"
    by (rule wf_run_effect) (use wf_facts[OF w] in simp_all)
  with w show ?thesis by (simp add: setState_def)
qed

lemma wf_fire: "wf c \<Longrightarrow> wf (fire c)"
proof (cases "timer c")
  case None
  assume "wf c"
  with None show ?thesis by (simp add: fire_def)
next
  case (Some t)
  assume w: "wf c"
  obtain wt cs hi where t: "t = Timer wt cs hi" by (cases t)
  from w Some t have ne: "history c \<noteq> []" by (auto simp: wf_def split: if_splits)
  from w Some t ne have cs: "cs = currentState c" and hi: "hi = historyIndex c"
    by (auto simp: wf_def)
  from w ne have rng: "0 \<le> hi" "hi < int (length (history c))" and da: "distinct_adj (history c)"
    and nu: "\<not> isUndoing c"
    by (auto simp: wf_def hi)
  let ?next = "take (nat (hi + 1)) (history c)"
  have nne: "?next \<noteq> []" using rng ne by auto
  have len: "int (length ?next) = hi + 1" using rng by auto
  have dn: "distinct_adj ?next" using da by (rule distinct_adj_take)
  let ?c1 = "on_timeout cs hi (c\<lparr>timer := None\<rparr>)"
  have c1: "distinct_adj (history ?c1) \<and> history ?c1 \<noteq> [] \<and> 0 \<le> historyIndex ?c1
      \<and> historyIndex ?c1 < int (length (history ?c1)) \<and> \<not> isUndoing ?c1 \<and> timer ?c1 = None"
    using rng nne len dn nu
    by (auto simp: on_timeout_def js_slice0_def Let_def hi distinct_adj_append_iff)
  show ?thesis
  proof (cases "length (history ?c1) \<noteq> length (history c) \<or> historyIndex ?c1 \<noteq> historyIndex c")
    case True
    then have "fire c = run_effect ?c1" using Some t by (simp add: fire_def Let_def)
    with c1 show ?thesis by (simp add: wf_run_effect)
  next
    case False
    then have "fire c = ?c1" using Some t by (simp add: fire_def Let_def)
    with c1 show ?thesis by (simp add: wf_def)
  qed
qed

lemma wf_elapse: "wf c \<Longrightarrow> wf (elapse d c)"
proof (induction d c rule: elapse.induct)
  case (1 d c)
  show ?case
  proof (cases "timer c")
    case None
    with 1 show ?thesis by (simp add: elapse.simps)
  next
    case (Some t)
    obtain w cs hi where t: "t = Timer w cs hi" by (cases t)
    show ?thesis
    proof (cases "w + d < DEBOUNCE")
      case True
      with Some t 1(2) show ?thesis
        by (auto simp: elapse.simps[of d c] wf_def)
    next
      case False
      with Some t have "elapse d c = elapse (d - (DEBOUNCE - w)) (fire c)"
        by (simp add: elapse.simps[of d c])
      moreover have "wf (elapse (d - (DEBOUNCE - w)) (fire c))"
        using "1.IH"[OF Some t False] wf_fire[OF "1.prems"] by simp
      ultimately show ?thesis by simp
    qed
  qed
qed

lemma wf_jump:
  assumes w: "wf c" and i: "0 \<le> i" "i < int (length (history c))"
  shows "wf (run_effect (c\<lparr>isUndoing := True, historyIndex := i, currentState := st\<rparr>))"
  by (rule wf_run_effect) (use wf_facts[OF w] i in simp_all)

lemma wf_undo: "wf c \<Longrightarrow> undo c = Inr c' \<Longrightarrow> wf c'"
  unfolding undo_def
  by (auto intro!: wf_jump simp: js_index_def Let_def split: if_splits option.splits)

lemma wf_redo: "wf c \<Longrightarrow> redo c = Inr c' \<Longrightarrow> wf c'"
  unfolding redo_def
  by (auto intro!: wf_jump simp: js_index_def Let_def split: if_splits option.splits)

lemma reachable_wf: "reachable c \<Longrightarrow> wf c"
proof (induction rule: reachable.induct)
  case reach_initial
  show ?case by (rule wf_initial)
next
  case reach_mount
  show ?case by (rule wf_run_effect) (simp_all add: initial_def)
qed (auto intro: wf_setState wf_elapse wf_undo wf_redo)

subsection \<open>Single steps\<close>

lemma setState_fresh:
  "x \<noteq> currentState c \<Longrightarrow> \<not> isUndoing c \<Longrightarrow> history c \<noteq> [] \<Longrightarrow>
   setState x c = c\<lparr>currentState := x, timer := Some (Timer 0 x (historyIndex c))\<rparr>"
  by (simp add: setState_def run_effect_def effect_tracking_def Let_def)

lemma elapse_None: "timer c = None \<Longrightarrow> elapse d c = c"
  by (simp add: elapse.simps[of d c])

lemma elapse_wait:
  "timer c = Some (Timer w cs hi) \<Longrightarrow> w + d < DEBOUNCE \<Longrightarrow>
   elapse d c = c\<lparr>timer := Some (Timer (w + d) cs hi)\<rparr>"
  by (simp add: elapse.simps[of d c])

lemma elapse_fire:
  "timer c = Some (Timer w cs hi) \<Longrightarrow> \<not> w + d < DEBOUNCE \<Longrightarrow>
   elapse d c = elapse (d - (DEBOUNCE - w)) (fire c)"
  by (simp add: elapse.simps[of d c])

lemma fire_append:
  assumes "timer c = Some (Timer w cs hi)" "0 \<le> hi" "hi < int (length (history c))"
    "history c ! nat hi \<noteq> cs" "hi = historyIndex c" "\<not> isUndoing c"
  shows "fire c = c\<lparr>history := take (nat (hi + 1)) (history c) @ [cs], historyIndex := hi + 1,
                     timer := Some (Timer 0 (currentState c) (hi + 1))\<rparr>"
proof -
  let ?next = "take (nat (hi + 1)) (history c)"
  have l: "length ?next = nat (hi + 1)" using assms by auto
  have ne: "?next \<noteq> []" using assms by auto
  have "last ?next = ?next ! (length ?next - 1)" using ne by (rule last_conv_nth)
  also have "\<dots> = history c ! nat hi" using assms l by (simp add: nat_add_distrib)
  finally have la: "last ?next = history c ! nat hi" .
  show ?thesis
    using assms ne la l
    by (auto simp add: fire_def on_timeout_def js_slice0_def Let_def run_effect_def effect_tracking_def)
qed

lemma fire_same:
  assumes "timer c = Some (Timer w cs hi)" "0 \<le> hi" "hi < int (length (history c))"
    "history c ! nat hi = cs" "hi = historyIndex c" "\<not> isUndoing c"
  shows "fire c = (if nat (hi + 1) = length (history c) then c\<lparr>timer := None\<rparr>
     else c\<lparr>history := take (nat (hi + 1)) (history c),
            timer := Some (Timer 0 (currentState c) hi)\<rparr>)"
proof -
  let ?next = "take (nat (hi + 1)) (history c)"
  have l: "length ?next = nat (hi + 1)" using assms by auto
  have ne: "?next \<noteq> []" using assms by auto
  have "last ?next = ?next ! (length ?next - 1)" using ne by (rule last_conv_nth)
  also have "\<dots> = history c ! nat hi" using assms l by (simp add: nat_add_distrib)
  finally have la: "last ?next = history c ! nat hi" .
  show ?thesis
    using assms ne la l
    by (auto simp add: fire_def on_timeout_def js_slice0_def Let_def run_effect_def effect_tracking_def)
qed

lemma commit_fresh:
  assumes "x \<noteq> currentState c" "\<not> isUndoing c" "0 \<le> historyIndex c"
    "historyIndex c < int (length (history c))" "history c ! nat (historyIndex c) \<noteq> x"
  shows "commit x c = c\<lparr>currentState := x,
            history := take (nat (historyIndex c + 1)) (history c) @ [x],
            historyIndex := historyIndex c + 1,
            timer := Some (Timer 0 x (historyIndex c + 1))\<rparr>"
proof -
  have ne: "history c \<noteq> []" using assms by auto
  let ?c1 = "c\<lparr>currentState := x, timer := Some (Timer 0 x (historyIndex c))\<rparr>"
  have s: "setState x c = ?c1" using assms ne by (simp add: setState_fresh)
  have f: "fire ?c1 = ?c1\<lparr>history := take (nat (historyIndex c + 1)) (history ?c1) @ [x],
        historyIndex := historyIndex c + 1, timer := Some (Timer 0 (currentState ?c1) (historyIndex c + 1))\<rparr>"
    by (rule fire_append[where w=0]) (use assms in simp_all)
  have "elapse DEBOUNCE ?c1 = elapse (DEBOUNCE - (DEBOUNCE - 0)) (fire ?c1)"
    by (rule elapse_fire[where cs=x and hi="historyIndex c"]) simp_all
  also have "\<dots> = elapse 0 (fire ?c1)" by simp
  also have "\<dots> = (fire ?c1)\<lparr>timer := Some (Timer (0 + 0) x (historyIndex c + 1))\<rparr>"
    by (rule elapse_wait) (simp_all add: f DEBOUNCE_def)
  finally show ?thesis by (simp add: commit_def s f)
qed

lemma mounted_eq:
  "mounted = \<lparr>currentState = DEFAULT_STATE, history = [DEFAULT_STATE], historyIndex = 0,
      isUndoing = False, timer = Some (Timer 0 DEFAULT_STATE 0)\<rparr>"
  by (simp add: mounted_def run_effect_def initial_def effect_tracking_def Let_def)

lemma undo_step:
  assumes "0 < historyIndex c" "historyIndex c \<le> int (length (history c))" "\<not> isUndoing c"
  shows "undo c = Inr (c\<lparr>historyIndex := historyIndex c - 1,
            currentState := history c ! nat (historyIndex c - 1), timer := None\<rparr>)"
proof -
  have "history c \<noteq> []" using assms by auto
  with assms show ?thesis
    by (simp add: undo_def js_index_def Let_def run_effect_def effect_tracking_def)
qed

lemma redo_step:
  assumes "- 1 \<le> historyIndex c" "historyIndex c < int (length (history c)) - 1" "\<not> isUndoing c"
  shows "redo c = Inr (c\<lparr>historyIndex := historyIndex c + 1,
            currentState := history c ! nat (historyIndex c + 1), timer := None\<rparr>)"
proof -
  have "history c \<noteq> []" using assms by auto
  with assms show ?thesis
    by (simp add: redo_def js_index_def Let_def run_effect_def effect_tracking_def)
qed

lemma snaps_distinct:
  "snapB \<noteq> DEFAULT_STATE" "snapC \<noteq> DEFAULT_STATE" "snapD \<noteq> DEFAULT_STATE"
  "DEFAULT_STATE \<noteq> snapB" "DEFAULT_STATE \<noteq> snapC" "DEFAULT_STATE \<noteq> snapD"
  "snapB \<noteq> snapC" "snapC \<noteq> snapB" "snapB \<noteq> snapD" "snapD \<noteq> snapB"
  "snapC \<noteq> snapD" "snapD \<noteq> snapC"
  by (simp_all add: snapB_def snapC_def snapD_def DEFAULT_STATE_def)

lemma commit_snapB: "commit snapB mounted =
    \<lparr>currentState = snapB, history = [DEFAULT_STATE, snapB], historyIndex = 1,
     isUndoing = False, timer = Some (Timer 0 snapB 1)\<rparr>"
  by (subst commit_fresh) (simp_all add: mounted_eq snaps_distinct)

lemma reachable_commit: "reachable c \<Longrightarrow> reachable (commit x c)"
  unfolding commit_def by (intro reach_elapse reach_setState)

lemma reachable_mounted: "reachable mounted"
  unfolding mounted_def by (rule reach_mount)

lemma elapse_settled:
  assumes "timer c = Some (Timer w (currentState c) (historyIndex c))"
    and "0 \<le> historyIndex c" "int (length (history c)) = historyIndex c + 1"
    and "history c ! nat (historyIndex c) = currentState c" "\<not> isUndoing c"
  shows "history (elapse d c) = history c \<and> historyIndex (elapse d c) = historyIndex c"
proof (cases "w + d < DEBOUNCE")
  case True
  with assms(1) show ?thesis by (simp add: elapse_wait)
next
  case False
  have l: "nat (historyIndex c + 1) = length (history c)" using assms(2,3) by linarith
  have "fire c = c\<lparr>timer := None\<rparr>"
    using fire_same[OF assms(1) assms(2) _ assms(4) refl assms(5)] assms(3) l by simp
  then have "elapse d c = elapse (d - (DEBOUNCE - w)) (c\<lparr>timer := None\<rparr>)"
    using elapse_fire[OF assms(1) False] by simp
  then show ?thesis by (simp add: elapse_None)
qed

lemma pending_edit_eq: "pending_edit =
    \<lparr>currentState = snapC, history = [DEFAULT_STATE, snapB], historyIndex = 1,
     isUndoing = False, timer = Some (Timer 0 snapC 1)\<rparr>"
  unfolding pending_edit_def commit_snapB
  by (subst setState_fresh) (simp_all add: snaps_distinct)

lemma commit_snapC: "commit snapC (commit snapB mounted) =
    \<lparr>currentState = snapC, history = [DEFAULT_STATE, snapB, snapC], historyIndex = 2,
     isUndoing = False, timer = Some (Timer 0 snapC 2)\<rparr>"
  unfolding commit_snapB by (subst commit_fresh) (simp_all add: snaps_distinct)

lemma reachable_no_adjacent_duplicates: "reachable c \<Longrightarrow> distinct_adj (history c)"
  by (drule reachable_wf) (rule wf_facts)

lemma commit_same_at_end:
  assumes "reachable c" "history c \<noteq> []" "x = history c ! nat (historyIndex c)"
    "int (length (history c)) = historyIndex c + 1"
  shows "history (commit x c) = history c \<and> historyIndex (commit x c) = historyIndex c"
proof -
  have w: "wf c" using assms(1) by (rule reachable_wf)
  from wf_facts[OF w] assms(2) have rng: "0 \<le> historyIndex c" and nu: "\<not> isUndoing c" by simp_all
  show ?thesis
  proof (cases "x = currentState c")
    case True
    then have s: "setState x c = c" by (simp add: setState_def)
    show ?thesis
    proof (cases "timer c")
      case None
      then show ?thesis by (simp add: commit_def s elapse_None)
    next
      case (Some t)
      with w assms(2) have "timer c = Some (Timer (waited t) (currentState c) (historyIndex c))"
        by (cases t) (auto simp: wf_def)
      from elapse_settled[OF this rng assms(4) _ nu, of DEBOUNCE] assms(3) True
      show ?thesis unfolding commit_def s by simp
    qed
  next
    case False
    then have s: "setState x c = c\<lparr>currentState := x, timer := Some (Timer 0 x (historyIndex c))\<rparr>"
      using nu assms(2) by (simp add: setState_fresh)
    show ?thesis
      unfolding commit_def s
      using elapse_settled[where w=0 and c="c\<lparr>currentState := x, timer := Some (Timer 0 x (historyIndex c))\<rparr>"
            and d=DEBOUNCE] rng assms(3,4) nu
      by simp
  qed
qed

lemma commit_default_again: "history (commit DEFAULT_STATE mounted) = [DEFAULT_STATE]"
  using commit_same_at_end[OF reachable_mounted, of DEFAULT_STATE] by (simp add: mounted_eq)

subsection \<open>Claims about the history controller\<close>

text \<open>
  Claim C5. Start from a history that holds only the snapshot \<open>A\<close>, at index 0, with \<open>A\<close>
  live. Commit \<open>B\<close>, then \<open>C\<close> (each edit followed by a full debounce window): the
  sequence is \<open>[A, B, C]\<close> at index 2. Two calls of \<^verbatim>\<open>undo\<close> succeed and make \<open>A\<close>
  live again at index 0, the sequence still being \<open>[A, B, C]\<close>. Committing \<open>D\<close> then
  drops \<open>B\<close> and \<open>C\<close>: the sequence is \<open>[A, D]\<close> at index 1, and \<^verbatim>\<open>redo\<close> changes
  nothing. The snapshots of the scenario are different ones: each committed edit changes
  the live snapshot (\<open>B \<noteq> A\<close>, \<open>C \<noteq> B\<close>, \<open>D \<noteq> A\<close>).
\<close>

theorem history_scenario:
  assumes start: "history c = [A]" "historyIndex c = 0" "currentState c = A" "\<not> isUndoing c"
    and diff: "B \<noteq> A" "C \<noteq> B" "D \<noteq> A"
  shows "\<exists>c3 c4. history (commit C (commit B c)) = [A, B, C] \<and>
           historyIndex (commit C (commit B c)) = 2 \<and>
           undo (commit C (commit B c)) = Inr c3 \<and> undo c3 = Inr c4 \<and>
           currentState c4 = A \<and> historyIndex c4 = 0 \<and> history c4 = [A, B, C] \<and>
           history (commit D c4) = [A, D] \<and> historyIndex (commit D c4) = 1 \<and>
           redo (commit D c4) = Inr (commit D c4)"
proof -
  let ?c1 = "c\<lparr>currentState := B, history := [A, B], historyIndex := 1,
               timer := Some (Timer 0 B 1)\<rparr>"
  let ?c2 = "c\<lparr>currentState := C, history := [A, B, C], historyIndex := 2,
               timer := Some (Timer 0 C 2)\<rparr>"
  let ?c3 = "c\<lparr>currentState := B, history := [A, B, C], historyIndex := 1, timer := None\<rparr>"
  let ?c4 = "c\<lparr>currentState := A, history := [A, B, C], historyIndex := 0, timer := None\<rparr>"
  let ?c5 = "c\<lparr>currentState := D, history := [A, D], historyIndex := 1,
               timer := Some (Timer 0 D 1)\<rparr>"
  have 1: "commit B c = ?c1"
    using start diff by (subst commit_fresh) auto
  have 2: "commit C ?c1 = ?c2"
    using start diff by (subst commit_fresh) auto
  have 3: "undo ?c2 = Inr ?c3"
    using start by (subst undo_step) auto
  have 4: "undo ?c3 = Inr ?c4"
    using start by (subst undo_step) auto
  have 5: "commit D ?c4 = ?c5"
    using start diff by (subst commit_fresh) auto
  have 6: "redo ?c5 = Inr ?c5"
    by (simp add: redo_def)
  show ?thesis
    unfolding 1 2
    by (rule exI[of _ ?c3], rule exI[of _ ?c4]) (simp add: 3 4 5 6)
qed

theorem history_scenario_witness:
  "history mounted = [DEFAULT_STATE] \<and> historyIndex mounted = 0 \<and>
   currentState mounted = DEFAULT_STATE \<and> \<not> isUndoing mounted \<and>
   snapB \<noteq> DEFAULT_STATE \<and> snapC \<noteq> snapB \<and> snapD \<noteq> DEFAULT_STATE \<and>
   (\<exists>c3 c4. history (commit snapC (commit snapB mounted)) = [DEFAULT_STATE, snapB, snapC] \<and>
           historyIndex (commit snapC (commit snapB mounted)) = 2 \<and>
           undo (commit snapC (commit snapB mounted)) = Inr c3 \<and> undo c3 = Inr c4 \<and>
           currentState c4 = DEFAULT_STATE \<and> historyIndex c4 = 0 \<and>
           history c4 = [DEFAULT_STATE, snapB, snapC] \<and>
           history (commit snapD c4) = [DEFAULT_STATE, snapD] \<and> historyIndex (commit snapD c4) = 1 \<and>
           redo (commit snapD c4) = Inr (commit snapD c4))"
  using history_scenario[of mounted DEFAULT_STATE snapB snapC snapD]
  by (simp add: mounted_eq snaps_distinct)

text \<open>
  Claim C7. \<^verbatim>\<open>undo\<close> at an index \<open>\<le> 0\<close> and \<^verbatim>\<open>redo\<close> at an index
  \<open>\<ge> length - 1\<close> return the state as it is, without an error. Whenever \<^verbatim>\<open>undo\<close> or
  \<^verbatim>\<open>redo\<close> returns, the sequence is the one it started from. In a reachable state
  neither of them throws.
\<close>

theorem undo_redo_boundaries:
  "(historyIndex c \<le> 0 \<longrightarrow> undo c = Inr c) \<and>
   (int (length (history c)) - 1 \<le> historyIndex c \<longrightarrow> redo c = Inr c) \<and>
   (\<forall>c'. undo c = Inr c' \<longrightarrow> history c' = history c) \<and>
   (\<forall>c'. redo c = Inr c' \<longrightarrow> history c' = history c) \<and>
   (reachable c \<longrightarrow> undo c \<noteq> Inl TypeError \<and> redo c \<noteq> Inl TypeError)"
proof (intro conjI allI impI)
  assume "historyIndex c \<le> 0" then show "undo c = Inr c" by (simp add: undo_def)
next
  assume "int (length (history c)) - 1 \<le> historyIndex c"
  then show "redo c = Inr c" by (simp add: redo_def)
next
  fix c' assume "undo c = Inr c'"
  then show "history c' = history c"
    by (auto simp: undo_def js_index_def Let_def run_effect_def effect_tracking_def
        split: if_splits option.splits)
next
  fix c' assume "redo c = Inr c'"
  then show "history c' = history c"
    by (auto simp: redo_def js_index_def Let_def run_effect_def effect_tracking_def
        split: if_splits option.splits)
next
  assume "reachable c"
  then have w: "wf c" by (rule reachable_wf)
  then show "undo c \<noteq> Inl TypeError"
    by (auto simp: undo_def js_index_def Let_def wf_def split: if_splits)
next
  assume "reachable c"
  then have w: "wf c" by (rule reachable_wf)
  then show "redo c \<noteq> Inl TypeError"
    by (auto simp: redo_def js_index_def Let_def wf_def split: if_splits)
qed

theorem undo_redo_boundaries_witness:
  "historyIndex mounted \<le> 0 \<and> undo mounted = Inr mounted \<and>
   int (length (history mounted)) - 1 \<le> historyIndex mounted \<and> redo mounted = Inr mounted \<and>
   reachable (commit snapB mounted) \<and>
   undo (commit snapB mounted) = Inr (mounted\<lparr>history := [DEFAULT_STATE, snapB], timer := None\<rparr>) \<and>
   history (mounted\<lparr>history := [DEFAULT_STATE, snapB], timer := None\<rparr>) = history (commit snapB mounted) \<and>
   undo (commit snapB mounted) \<noteq> Inl TypeError"
proof -
  have r: "reachable (commit snapB mounted)"
    by (intro reachable_commit reachable_mounted)
  have u: "undo (commit snapB mounted) = Inr (mounted\<lparr>history := [DEFAULT_STATE, snapB], timer := None\<rparr>)"
    unfolding commit_snapB by (subst undo_step) (simp_all add: mounted_eq)
  have m: "historyIndex mounted \<le> 0" "int (length (history mounted)) - 1 \<le> historyIndex mounted"
    by (simp_all add: mounted_eq)
  from undo_redo_boundaries[of mounted] m
  have a: "undo mounted = Inr mounted" "redo mounted = Inr mounted" by blast+
  from undo_redo_boundaries[of "commit snapB mounted"] r u
  have b: "history (mounted\<lparr>history := [DEFAULT_STATE, snapB], timer := None\<rparr>) = history (commit snapB mounted)"
    "undo (commit snapB mounted) \<noteq> Inl TypeError" by blast+
  from m a r u b show ?thesis by blast
qed

text \<open>
  Claim C8. In every state reachable from the first render by edits, the passing of
  time (timers firing), \<^verbatim>\<open>undo\<close> and \<^verbatim>\<open>redo\<close>, a non-empty sequence has
  \<open>0 \<le> historyIndex < length history\<close>.
\<close>

theorem index_in_range:
  "reachable c \<Longrightarrow> history c \<noteq> [] \<Longrightarrow>
   0 \<le> historyIndex c \<and> historyIndex c < int (length (history c))"
  by (drule reachable_wf) (simp add: wf_facts)

theorem index_in_range_witness:
  "reachable (commit snapB mounted) \<and> history (commit snapB mounted) \<noteq> [] \<and>
   0 \<le> historyIndex (commit snapB mounted) \<and>
   historyIndex (commit snapB mounted) < int (length (history (commit snapB mounted)))"
proof -
  have r: "reachable (commit snapB mounted)"
    by (intro reachable_commit reachable_mounted)
  have n: "history (commit snapB mounted) \<noteq> []" by (simp add: commit_snapB)
  from r n index_in_range[OF r n] show ?thesis by simp
qed

text \<open>
  Claim C9, as the code has it. In a reachable state with a non-empty sequence, let three
  edits produce the snapshots \<open>A\<close>, \<open>B\<close>, \<open>C\<close> (each changes the live snapshot), the second
  and the third arriving fewer than 300 time units after the one before, and let \<open>C\<close>
  differ from the entry at the current index. Then no entry is appended while the edits
  arrive nor during the 300 units after the last one; from then on the sequence is the
  old one up to the index followed by the single new entry \<open>C\<close>.
\<close>

theorem debounce_coalesces:
  assumes r: "reachable c" and ne: "history c \<noteq> []"
    and changes: "A \<noteq> currentState c" "B \<noteq> A" "C \<noteq> B"
    and gaps: "d1 < DEBOUNCE" "d2 < DEBOUNCE"
    and new: "C \<noteq> history c ! nat (historyIndex c)"
  shows "let c3 = setState C (elapse d2 (setState B (elapse d1 (setState A c)))) in
           history c3 = history c \<and> historyIndex c3 = historyIndex c \<and>
           (\<forall>d. history (elapse d c3) =
                 (if d < DEBOUNCE then history c
                  else take (nat (historyIndex c + 1)) (history c) @ [C]))"
proof -
  have w: "wf c" using r by (rule reachable_wf)
  from wf_facts[OF w] ne have rng: "0 \<le> historyIndex c" "historyIndex c < int (length (history c))"
    and nu: "\<not> isUndoing c" by simp_all
  let ?i = "historyIndex c"
  let ?c1 = "c\<lparr>currentState := A, timer := Some (Timer 0 A ?i)\<rparr>"
  let ?c1' = "c\<lparr>currentState := A, timer := Some (Timer d1 A ?i)\<rparr>"
  let ?c2 = "c\<lparr>currentState := B, timer := Some (Timer 0 B ?i)\<rparr>"
  let ?c2' = "c\<lparr>currentState := B, timer := Some (Timer d2 B ?i)\<rparr>"
  let ?c3 = "c\<lparr>currentState := C, timer := Some (Timer 0 C ?i)\<rparr>"
  have 1: "setState A c = ?c1" using changes nu ne by (simp add: setState_fresh)
  have 2: "elapse d1 ?c1 = ?c1'"
    using gaps by (subst elapse_wait[where w=0 and cs=A and hi="?i"]) simp_all
  have 3: "setState B ?c1' = ?c2" using changes nu ne by (simp add: setState_fresh)
  have 4: "elapse d2 ?c2 = ?c2'"
    using gaps by (subst elapse_wait[where w=0 and cs=B and hi="?i"]) simp_all
  have 5: "setState C ?c2' = ?c3" using changes nu ne by (simp add: setState_fresh)
  have c3: "setState C (elapse d2 (setState B (elapse d1 (setState A c)))) = ?c3"
    by (simp only: 1 2 3 4 5)
  have later: "history (elapse d ?c3) =
      (if d < DEBOUNCE then history c else take (nat (?i + 1)) (history c) @ [C])" for d
  proof (cases "d < DEBOUNCE")
    case True
    then show ?thesis by (subst elapse_wait[where w=0 and cs=C and hi="?i"]) simp_all
  next
    case False
    let ?c4 = "c\<lparr>currentState := C, history := take (nat (?i + 1)) (history c) @ [C],
                 historyIndex := ?i + 1, timer := Some (Timer 0 C (?i + 1))\<rparr>"
    have f: "fire ?c3 = ?c4"
      using rng new nu by (subst fire_append[where w=0 and cs=C and hi="?i"]) simp_all
    have e: "elapse d ?c3 = elapse (d - (DEBOUNCE - 0)) (fire ?c3)"
      using False by (subst elapse_fire[where w=0 and cs=C and hi="?i"]) simp_all
    have len: "length (take (nat (?i + 1)) (history c)) = nat (?i + 1)" using rng by auto
    have s: "history (elapse d' ?c4) = history ?c4" for d'
      using rng nu len
      by (intro conjunct1[OF elapse_settled[where w=0]]) (simp_all add: nth_append)
    show ?thesis using False by (simp add: e f s)
  qed
  show ?thesis unfolding c3 Let_def using later by simp
qed

theorem debounce_coalesces_witness:
  "reachable mounted \<and> history mounted \<noteq> [] \<and> snapB \<noteq> currentState mounted \<and>
   snapC \<noteq> snapB \<and> snapD \<noteq> snapC \<and> (100::nat) < DEBOUNCE \<and> (200::nat) < DEBOUNCE \<and>
   snapD \<noteq> history mounted ! nat (historyIndex mounted) \<and>
   history (setState snapD (elapse 200 (setState snapC (elapse 100 (setState snapB mounted)))))
     = [DEFAULT_STATE] \<and>
   history (elapse 299 (setState snapD (elapse 200 (setState snapC (elapse 100 (setState snapB mounted))))))
     = [DEFAULT_STATE] \<and>
   history (elapse 300 (setState snapD (elapse 200 (setState snapC (elapse 100 (setState snapB mounted))))))
     = [DEFAULT_STATE, snapD]"
proof -
  have h: "snapB \<noteq> currentState mounted" "snapC \<noteq> snapB" "snapD \<noteq> snapC"
    "(100::nat) < DEBOUNCE" "(200::nat) < DEBOUNCE"
    "snapD \<noteq> history mounted ! nat (historyIndex mounted)" "history mounted \<noteq> []"
    using snaps_distinct by (simp_all add: mounted_eq DEBOUNCE_def)
  note t = debounce_coalesces[OF reachable_mounted h(7) h(1) h(2) h(3) h(4) h(5) h(6), unfolded Let_def]
  have a: "history (setState snapD (elapse 200 (setState snapC (elapse 100 (setState snapB mounted)))))
     = [DEFAULT_STATE]" using t by (simp add: mounted_eq)
  have b: "history (elapse 299 (setState snapD (elapse 200 (setState snapC (elapse 100 (setState snapB mounted))))))
     = [DEFAULT_STATE]"
    using conjunct2[OF conjunct2[OF t], THEN spec, of 299] by (simp add: mounted_eq DEBOUNCE_def)
  have c: "history (elapse 300 (setState snapD (elapse 200 (setState snapC (elapse 100 (setState snapB mounted))))))
     = [DEFAULT_STATE, snapD]"
    using conjunct2[OF conjunct2[OF t], THEN spec, of 300] by (simp add: mounted_eq DEBOUNCE_def)
  from reachable_mounted h a b c show ?thesis by simp
qed

text \<open>
  Claim C9 as stated fails when the last snapshot of the burst is the one already stored
  at the current index: nothing is appended then.
\<close>

theorem debounce_back_to_committed:
  "snapB \<noteq> currentState mounted \<and> snapC \<noteq> snapB \<and> DEFAULT_STATE \<noteq> snapC \<and>
   history mounted = [DEFAULT_STATE] \<and>
   history (elapse 300 (setState DEFAULT_STATE (elapse 100 (setState snapC
      (elapse 100 (setState snapB mounted)))))) = [DEFAULT_STATE]"
proof -
  let ?c1 = "mounted\<lparr>currentState := snapB, timer := Some (Timer 0 snapB 0)\<rparr>"
  let ?c1' = "mounted\<lparr>currentState := snapB, timer := Some (Timer 100 snapB 0)\<rparr>"
  let ?c2 = "mounted\<lparr>currentState := snapC, timer := Some (Timer 0 snapC 0)\<rparr>"
  let ?c2' = "mounted\<lparr>currentState := snapC, timer := Some (Timer 100 snapC 0)\<rparr>"
  have 1: "setState snapB mounted = ?c1"
    by (subst setState_fresh) (simp_all add: mounted_eq snaps_distinct)
  have 2: "elapse 100 ?c1 = ?c1'"
    by (subst elapse_wait[where w=0 and cs=snapB and hi=0]) (simp_all add: mounted_eq DEBOUNCE_def)
  have 3: "setState snapC ?c1' = ?c2"
    by (subst setState_fresh) (simp_all add: mounted_eq snaps_distinct)
  have 4: "elapse 100 ?c2 = ?c2'"
    by (subst elapse_wait[where w=0 and cs=snapC and hi=0]) (simp_all add: mounted_eq DEBOUNCE_def)
  have 5: "setState DEFAULT_STATE ?c2' = mounted"
    by (subst setState_fresh) (simp_all add: mounted_eq snaps_distinct)
  have 6: "history (elapse 300 mounted) = history mounted"
    by (intro conjunct1[OF elapse_settled[where w=0]]) (simp_all add: mounted_eq)
  show ?thesis
    unfolding 1 2 3 4 5 6 using snaps_distinct by (simp add: mounted_eq)
qed

text \<open>
  Claim C10, as the code has it. In a reachable state with \<open>historyIndex > 0\<close> whose live
  snapshot is the entry at the index (no edit is waiting to be committed),
  \<^verbatim>\<open>undo\<close> followed by \<^verbatim>\<open>redo\<close> gives back the same state, except that a pending
  timer has been cleared.
\<close>

theorem undo_then_redo:
  assumes "reachable c" "0 < historyIndex c"
    and "currentState c = history c ! nat (historyIndex c)"
  shows "and_then (undo c) redo = Inr (c\<lparr>timer := None\<rparr>)"
proof -
  have w: "wf c" using assms(1) by (rule reachable_wf)
  from w assms(2) have ne: "history c \<noteq> []" by (auto simp: wf_def)
  from wf_facts[OF w] ne have rng: "historyIndex c < int (length (history c))"
    and nu: "\<not> isUndoing c" by simp_all
  let ?c1 = "c\<lparr>historyIndex := historyIndex c - 1,
            currentState := history c ! nat (historyIndex c - 1), timer := None\<rparr>"
  have u: "undo c = Inr ?c1"
    using assms(2) rng nu by (subst undo_step) simp_all
  have r: "redo ?c1 = Inr (?c1\<lparr>historyIndex := historyIndex ?c1 + 1,
            currentState := history ?c1 ! nat (historyIndex ?c1 + 1), timer := None\<rparr>)"
    using assms(2) rng nu by (subst redo_step) simp_all
  show ?thesis using assms(3) by (simp add: and_then_def u r)
qed

theorem undo_then_redo_witness:
  "reachable (commit snapB mounted) \<and> 0 < historyIndex (commit snapB mounted) \<and>
   currentState (commit snapB mounted) =
     history (commit snapB mounted) ! nat (historyIndex (commit snapB mounted)) \<and>
   and_then (undo (commit snapB mounted)) redo = Inr ((commit snapB mounted)\<lparr>timer := None\<rparr>)"
proof -
  have r: "reachable (commit snapB mounted)"
    by (intro reachable_commit reachable_mounted)
  have i: "0 < historyIndex (commit snapB mounted)" by (simp add: commit_snapB)
  have e: "currentState (commit snapB mounted) =
     history (commit snapB mounted) ! nat (historyIndex (commit snapB mounted))"
    by (simp add: commit_snapB)
  from r i e undo_then_redo[OF r i e] show ?thesis by simp
qed

text \<open>
  Claim C10 as stated fails in a reachable state with an edit that is still waiting:
  \<^verbatim>\<open>undo\<close> then \<^verbatim>\<open>redo\<close> leaves the entry at the index live, and the edit is lost.
\<close>

theorem undo_redo_loses_pending_edit:
  "reachable pending_edit \<and> 0 < historyIndex pending_edit \<and> currentState pending_edit = snapC \<and>
   and_then (undo pending_edit) redo =
     Inr \<lparr>currentState = snapB, history = [DEFAULT_STATE, snapB], historyIndex = 1,
          isUndoing = False, timer = None\<rparr> \<and> snapB \<noteq> snapC"
proof -
  have r: "reachable pending_edit"
    unfolding pending_edit_def by (intro reach_setState reachable_commit reachable_mounted)
  have u: "undo pending_edit = Inr \<lparr>currentState = DEFAULT_STATE, history = [DEFAULT_STATE, snapB],
      historyIndex = 0, isUndoing = False, timer = None\<rparr>"
    unfolding pending_edit_eq by (subst undo_step) simp_all
  have d: "redo \<lparr>currentState = DEFAULT_STATE, history = [DEFAULT_STATE, snapB],
      historyIndex = 0, isUndoing = False, timer = None\<rparr> =
      Inr \<lparr>currentState = snapB, history = [DEFAULT_STATE, snapB], historyIndex = 1,
          isUndoing = False, timer = None\<rparr>"
    by (subst redo_step) simp_all
  show ?thesis using r snaps_distinct by (simp add: and_then_def u d) (simp add: pending_edit_eq)
qed

text \<open>
  Claim C6 at the state reached by committing two snapshots and undoing once (sequence
  \<open>[DEFAULT_STATE, snapB, snapC]\<close>, index 1, \<open>snapB\<close> live). The user moves a slider away
  and back within one debounce window, so the timer that fires holds \<open>snapB\<close>, the entry
  at the current index. The callback appends nothing, but it returns the sequence cut
  after the index: \<open>snapC\<close> is gone. The other two parts of the claim do hold, see
  \<open>reachable_no_adjacent_duplicates\<close>, \<open>commit_same_at_end\<close> and \<open>commit_default_again\<close>.
\<close>

theorem equal_commit_drops_redo_entries:
  "undo (commit snapC (commit snapB mounted)) = Inr after_undo \<and>
   history after_undo = [DEFAULT_STATE, snapB, snapC] \<and> historyIndex after_undo = 1 \<and>
   on_timeout snapB 1 after_undo = after_undo\<lparr>history := [DEFAULT_STATE, snapB]\<rparr> \<and>
   history (elapse DEBOUNCE (setState snapB (elapse 100 (setState snapD after_undo))))
     = [DEFAULT_STATE, snapB] \<and>
   historyIndex (elapse DEBOUNCE (setState snapB (elapse 100 (setState snapD after_undo)))) = 1"
proof -
  have u: "undo (commit snapC (commit snapB mounted)) = Inr after_undo"
    unfolding commit_snapC by (subst undo_step) (simp_all add: after_undo_def)
  have t: "on_timeout snapB 1 after_undo = after_undo\<lparr>history := [DEFAULT_STATE, snapB]\<rparr>"
    by (simp add: on_timeout_def js_slice0_def after_undo_def Let_def)
  let ?c1 = "after_undo\<lparr>currentState := snapD, timer := Some (Timer 0 snapD 1)\<rparr>"
  let ?c1' = "after_undo\<lparr>currentState := snapD, timer := Some (Timer 100 snapD 1)\<rparr>"
  let ?c2 = "after_undo\<lparr>timer := Some (Timer 0 snapB 1)\<rparr>"
  let ?c3 = "after_undo\<lparr>history := [DEFAULT_STATE, snapB], timer := Some (Timer 0 snapB 1)\<rparr>"
  have 1: "setState snapD after_undo = ?c1"
    by (subst setState_fresh) (simp_all add: after_undo_def snaps_distinct)
  have 2: "elapse 100 ?c1 = ?c1'"
    by (subst elapse_wait[where w=0 and cs=snapD and hi=1]) (simp_all add: after_undo_def DEBOUNCE_def)
  have 3: "setState snapB ?c1' = ?c2"
    by (subst setState_fresh) (simp_all add: after_undo_def snaps_distinct)
  have 4: "elapse DEBOUNCE ?c2 = elapse (DEBOUNCE - (DEBOUNCE - 0)) (fire ?c2)"
    by (rule elapse_fire[where cs=snapB and hi=1]) (simp_all add: after_undo_def)
  have 5: "fire ?c2 = ?c3"
    by (subst fire_same[where w=0 and cs=snapB and hi=1]) (simp_all add: after_undo_def)
  have 6: "elapse (DEBOUNCE - (DEBOUNCE - 0)) ?c3 = ?c3"
    by (subst elapse_wait[where w=0 and cs=snapB and hi=1]) (simp_all add: after_undo_def DEBOUNCE_def)
  show ?thesis
    unfolding 1 2 3 4 5 6 using u t by (simp add: after_undo_def)
qed

end
